theory Spec2Isabelle
  imports
    Main
    "HOL-Library.Product_Lexorder"
    "HOL-Library.List_Lexorder"
    "HOL-Library.Multiset"
begin

section \<open>GridPathfinder: the program\<close>

text \<open>
  A shallow embedding of \<^verbatim>\<open>Djikstra_grid_path_finder.py\<close>. Python integers are
  \<open>int\<close>; a position is a pair of integers; a value that is either a position or
  \<^verbatim>\<open>None\<close> is a \<open>pos option\<close>. Every exception the source can raise is a value
  of \<open>py_error\<close>, returned as \<open>Inl\<close>.
\<close>

datatype py_error = IndexError | TypeError

type_synonym pos = "int \<times> int"
type_synonym cell = "pos option"

text \<open>
  An entry of the priority queue is the tuple \<^verbatim>\<open>(distance, position, path)\<close>.
  Python compares tuples and lists lexicographically; that is the order that
  \<open>Product_Lexorder\<close> and \<open>List_Lexorder\<close> put on this type.
\<close>

type_synonym entry = "int \<times> pos \<times> pos list"

record pathfinder =
  grid :: "char list list"
  rows :: int
  cols :: int
  start :: cell
  goal :: cell

subsection \<open>Indexing\<close>

text \<open>\<^verbatim>\<open>xs[i]\<close>: a negative index counts from the end, an index out of range raises.\<close>

definition py_index :: "'a list \<Rightarrow> int \<Rightarrow> py_error + 'a" where
  "py_index xs i =
     (if 0 \<le> i \<and> i < int (length xs) then Inr (xs ! nat i)
      else if i < 0 \<and> - int (length xs) \<le> i then Inr (xs ! nat (int (length xs) + i))
      else Inl IndexError)"

text \<open>\<^verbatim>\<open>self.grid[i][j]\<close>\<close>

definition grid_at :: "char list list \<Rightarrow> int \<Rightarrow> int \<Rightarrow> py_error + char" where
  "grid_at g i j = (case py_index g i of Inl e \<Rightarrow> Inl e | Inr row \<Rightarrow> py_index row j)"

subsection \<open>\<^verbatim>\<open>find_position\<close>\<close>

text \<open>The inner loop \<^verbatim>\<open>for j in range(self.cols)\<close> of row \<open>i\<close>.\<close>

fun find_in_row :: "pathfinder \<Rightarrow> char \<Rightarrow> int \<Rightarrow> int list \<Rightarrow> py_error + cell" where
  "find_in_row pf ch i [] = Inr None"
| "find_in_row pf ch i (j # js) =
     (case grid_at (grid pf) i j of
        Inl e \<Rightarrow> Inl e
      | Inr c \<Rightarrow> if c = ch then Inr (Some (i, j)) else find_in_row pf ch i js)"

text \<open>The outer loop \<^verbatim>\<open>for i in range(self.rows)\<close>.\<close>

fun find_in_rows :: "pathfinder \<Rightarrow> char \<Rightarrow> int list \<Rightarrow> py_error + cell" where
  "find_in_rows pf ch [] = Inr None"
| "find_in_rows pf ch (i # rest) =
     (case find_in_row pf ch i [0..cols pf - 1] of
        Inl e \<Rightarrow> Inl e
      | Inr (Some p) \<Rightarrow> Inr (Some p)
      | Inr None \<Rightarrow> find_in_rows pf ch rest)"

definition find_position :: "pathfinder \<Rightarrow> char \<Rightarrow> py_error + cell" where
  "find_position pf ch = find_in_rows pf ch [0..rows pf - 1]"

subsection \<open>\<^verbatim>\<open>__init__\<close>\<close>

text \<open>
  \<^verbatim>\<open>len(self.grid[0])\<close> raises \<open>IndexError\<close> on the empty grid. The two scans
  run on the object as it is at that point: grid, rows and cols set.
\<close>

definition init :: "string list \<Rightarrow> py_error + pathfinder" where
  "init g =
     (case g of
        [] \<Rightarrow> Inl IndexError
      | row0 # _ \<Rightarrow>
          (let pf0 = \<lparr>grid = g, rows = int (length g), cols = int (length row0),
                      start = None, goal = None\<rparr>
           in case find_position pf0 CHR ''S'' of
                Inl e \<Rightarrow> Inl e
              | Inr s \<Rightarrow>
                  (case find_position (pf0\<lparr>start := s\<rparr>) CHR ''G'' of
                     Inl e \<Rightarrow> Inl e
                   | Inr t \<Rightarrow> Inr (pf0\<lparr>start := s, goal := t\<rparr>))))"

subsection \<open>\<^verbatim>\<open>get_neighbors\<close>\<close>

text \<open>
  The loop over the four directions, with the list \<open>neighbors\<close> built so far.
  The cell is read only after both bound checks passed (\<^verbatim>\<open>and\<close> short-circuits).
\<close>

fun neighbors_loop ::
  "pathfinder \<Rightarrow> int \<Rightarrow> int \<Rightarrow> (int \<times> int) list \<Rightarrow> pos list \<Rightarrow> py_error + pos list" where
  "neighbors_loop pf row col [] neighbors = Inr neighbors"
| "neighbors_loop pf row col ((dr, dc) # ds) neighbors =
     (let new_row = row + dr; new_col = col + dc in
      if 0 \<le> new_row \<and> new_row < rows pf \<and> 0 \<le> new_col \<and> new_col < cols pf then
        (case grid_at (grid pf) new_row new_col of
           Inl e \<Rightarrow> Inl e
         | Inr c \<Rightarrow>
             if c \<noteq> CHR ''1''
             then neighbors_loop pf row col ds (neighbors @ [(new_row, new_col)])
             else neighbors_loop pf row col ds neighbors)
      else neighbors_loop pf row col ds neighbors)"

definition directions :: "(int \<times> int) list" where
  "directions = [(-1, 0), (1, 0), (0, -1), (0, 1)]"

definition get_neighbors :: "pathfinder \<Rightarrow> pos \<Rightarrow> py_error + pos list" where
  "get_neighbors pf p = neighbors_loop pf (fst p) (snd p) directions []"

subsection \<open>The priority queue\<close>

text \<open>
  \<^verbatim>\<open>heapq\<close> is the standard library's binary heap. It is modelled by its contract:
  \<^verbatim>\<open>heappush\<close> adds an item, \<^verbatim>\<open>heappop\<close> removes and returns the smallest one.
  The queue is the list of its items; the order on entries is linear, so the smallest item
  is unique and the layout of the heap cannot be observed.
\<close>

definition heappush :: "entry list \<Rightarrow> entry \<Rightarrow> entry list" where
  "heappush pq e = pq @ [e]"

definition heappop :: "entry list \<Rightarrow> entry \<times> entry list" where
  "heappop pq = (min_list pq, remove1 (min_list pq) pq)"

subsection \<open>\<^verbatim>\<open>find_shortest_path\<close>\<close>

text \<open>
  One iteration of \<^verbatim>\<open>for next_pos in self.get_neighbors(current_pos)\<close>;
  \<^verbatim>\<open>distances.get(next_pos, float('inf'))\<close> is infinite where the key is absent.
\<close>

definition relax_one ::
  "int \<Rightarrow> pos list \<Rightarrow> entry list \<times> (pos \<rightharpoonup> int) \<Rightarrow> pos \<Rightarrow> entry list \<times> (pos \<rightharpoonup> int)" where
  "relax_one current_dist current_path st next_pos =
     (let new_dist = current_dist + 1 in
      if (case snd st next_pos of None \<Rightarrow> True | Some d \<Rightarrow> new_dist < d)
      then (heappush (fst st) (new_dist, next_pos, current_path @ [next_pos]),
            (snd st)(next_pos \<mapsto> new_dist))
      else st)"

fun relax ::
  "int \<Rightarrow> pos list \<Rightarrow> pos list \<Rightarrow> entry list \<times> (pos \<rightharpoonup> int) \<Rightarrow> entry list \<times> (pos \<rightharpoonup> int)" where
  "relax current_dist current_path [] st = st"
| "relax current_dist current_path (next_pos # ns) st =
     relax current_dist current_path ns (relax_one current_dist current_path st next_pos)"

text \<open>
  The result of one pass through the body of \<^verbatim>\<open>while pq:\<close>, the test included:
  the function returns (or raises), or the loop goes on with a new queue, distance map and
  explored set.
\<close>

datatype loop_step =
  Return "py_error + (pos list option \<times> pos set)"
| Continue "entry list" "pos \<rightharpoonup> int" "pos set"

definition loop_body ::
  "pathfinder \<Rightarrow> entry list \<Rightarrow> (pos \<rightharpoonup> int) \<Rightarrow> pos set \<Rightarrow> loop_step" where
  "loop_body pf pq distances explored =
     (if pq = [] then Return (Inr (None, explored))
      else
        (case heappop pq of
           ((current_dist, current_pos, current_path), pq1) \<Rightarrow>
             if current_pos \<in> explored then Continue pq1 distances explored
             else if Some current_pos = goal pf
             then Return (Inr (Some current_path, insert current_pos explored))
             else
               (case get_neighbors pf current_pos of
                  Inl e \<Rightarrow> Return (Inl e)
                | Inr ns \<Rightarrow>
                    (case relax current_dist current_path ns (pq1, distances) of
                       (pq2, distances2) \<Rightarrow>
                         Continue pq2 distances2 (insert current_pos explored)))))"

subsection \<open>Termination of the search loop\<close>

text \<open>
  The positions a bound check of \<^verbatim>\<open>get_neighbors\<close> lets through, and the positions
  that can still be finalized: those in the box or in the queue, and not yet explored.
\<close>

definition in_box :: "pathfinder \<Rightarrow> pos \<Rightarrow> bool" where
  "in_box pf p = (0 \<le> fst p \<and> fst p < rows pf \<and> 0 \<le> snd p \<and> snd p < cols pf)"

definition pending :: "pathfinder \<Rightarrow> entry list \<Rightarrow> pos set \<Rightarrow> pos set" where
  "pending pf pq explored = {p. in_box pf p \<or> p \<in> (\<lambda>e. fst (snd e)) ` set pq} - explored"

lemma finite_in_box: "finite {p. in_box pf p}"
proof -
  have "{p. in_box pf p} \<subseteq> {0..rows pf} \<times> {0..cols pf}"
    by (auto simp: in_box_def)
  then show ?thesis
    by (rule finite_subset) simp
qed

lemma finite_pending: "finite (pending pf pq explored)"
proof -
  have "pending pf pq explored \<subseteq> {p. in_box pf p} \<union> (\<lambda>e. fst (snd e)) ` set pq"
    by (auto simp: pending_def)
  then show ?thesis
    by (rule finite_subset) (simp add: finite_in_box)
qed

lemma neighbors_loop_in_box:
  "neighbors_loop pf row col ds acc = Inr ns \<Longrightarrow> set ns \<subseteq> set acc \<union> {q. in_box pf q}"
proof (induction pf row col ds acc rule: neighbors_loop.induct)
  case (1 pf row col neighbors)
  then show ?case by auto
next
  case (2 pf row col dr dc ds neighbors)
  show ?case
  proof (cases "0 \<le> row + dr \<and> row + dr < rows pf \<and> 0 \<le> col + dc \<and> col + dc < cols pf")
    case False
    with 2 show ?thesis by (simp add: Let_def)
  next
    case True
    then have box: "in_box pf (row + dr, col + dc)"
      by (simp add: in_box_def)
    from 2(4) True obtain c where c: "grid_at (grid pf) (row + dr) (col + dc) = Inr c"
      by (auto simp: Let_def split: sum.splits)
    show ?thesis
    proof (cases "c = CHR ''1''")
      case True
      with 2(2) [OF refl refl \<open>0 \<le> row + dr \<and> row + dr < rows pf \<and> 0 \<le> col + dc \<and> col + dc < cols pf\<close> c] 2(4) c
        \<open>0 \<le> row + dr \<and> row + dr < rows pf \<and> 0 \<le> col + dc \<and> col + dc < cols pf\<close>
      show ?thesis by (simp add: Let_def)
    next
      case False
      with 2(1) [OF refl refl \<open>0 \<le> row + dr \<and> row + dr < rows pf \<and> 0 \<le> col + dc \<and> col + dc < cols pf\<close> c] 2(4) c
        \<open>0 \<le> row + dr \<and> row + dr < rows pf \<and> 0 \<le> col + dc \<and> col + dc < cols pf\<close> box
      show ?thesis by (auto simp: Let_def)
    qed
  qed
qed

lemma get_neighbors_in_box: "get_neighbors pf p = Inr ns \<Longrightarrow> q \<in> set ns \<Longrightarrow> in_box pf q"
  using neighbors_loop_in_box [of pf "fst p" "snd p" directions "[]" ns]
  by (auto simp: get_neighbors_def)

lemma relax_one_positions:
  "(\<lambda>e. fst (snd e)) ` set (fst (relax_one d path st q)) \<subseteq> insert q ((\<lambda>e. fst (snd e)) ` set (fst st))"
  by (auto simp: relax_one_def heappush_def Let_def)

lemma relax_positions:
  "(\<lambda>e. fst (snd e)) ` set (fst (relax d path ns st)) \<subseteq> set ns \<union> (\<lambda>e. fst (snd e)) ` set (fst st)"
proof (induction ns arbitrary: st)
  case Nil
  then show ?case by simp
next
  case (Cons q ns)
  show ?case
    using Cons.IH [of "relax_one d path st q"] relax_one_positions [of d path st q]
    by auto
qed

lemma min_list_mem: "pq \<noteq> [] \<Longrightarrow> min_list pq \<in> set (pq :: entry list)"
  by (simp add: min_list_Min)

lemma loop_body_decreases:
  assumes "loop_body pf pq distances explored = Continue pq' distances' explored'"
  shows "card (pending pf pq' explored') < card (pending pf pq explored) \<or>
         (card (pending pf pq' explored') \<le> card (pending pf pq explored) \<and> length pq' < length pq)"
proof -
  from assms have ne: "pq \<noteq> []"
    by (auto simp: loop_body_def split: if_splits)
  obtain d p path where m: "min_list pq = (d, p, path)"
    by (cases "min_list pq") auto
  have mem: "(d, p, path) \<in> set pq"
    using min_list_mem [OF ne] m by simp
  show ?thesis
  proof (cases "p \<in> explored")
    case True
    with assms ne m have eq: "pq' = remove1 (d, p, path) pq" "explored' = explored"
      by (auto simp: loop_body_def heappop_def)
    have "pending pf pq' explored' \<subseteq> pending pf pq explored"
      using eq by (auto simp: pending_def dest: set_remove1_subset [THEN subsetD])
    then have "card (pending pf pq' explored') \<le> card (pending pf pq explored)"
      by (rule card_mono [OF finite_pending])
    moreover have "length pq' < length pq"
      using eq mem ne by (simp add: length_remove1)
    ultimately show ?thesis by simp
  next
    case False
    with assms ne m obtain ns where
      ns: "get_neighbors pf p = Inr ns" and
      r: "relax d path ns (remove1 (d, p, path) pq, distances) = (pq', distances')" and
      e: "explored' = insert p explored"
      by (auto simp: loop_body_def heappop_def split: if_splits sum.splits prod.splits)
    have "(\<lambda>e. fst (snd e)) ` set pq' \<subseteq> set ns \<union> (\<lambda>e. fst (snd e)) ` set (remove1 (d, p, path) pq)"
      using relax_positions [of d path ns "(remove1 (d, p, path) pq, distances)"] r by simp
    then have sub: "(\<lambda>e. fst (snd e)) ` set pq' \<subseteq> {q. in_box pf q} \<union> (\<lambda>e. fst (snd e)) ` set pq"
      using get_neighbors_in_box [OF ns] image_mono [OF set_remove1_subset [of "(d, p, path)" pq], of "\<lambda>e. fst (snd e)"]
      by blast
    have "pending pf pq' explored' \<subseteq> pending pf pq explored - {p}"
      using sub e by (auto simp: pending_def)
    moreover have "p \<in> pending pf pq explored"
      using mem False by (force simp: pending_def)
    ultimately have "pending pf pq' explored' \<subset> pending pf pq explored"
      by auto
    then have "card (pending pf pq' explored') < card (pending pf pq explored)"
      by (rule psubset_card_mono [OF finite_pending])
    then show ?thesis by simp
  qed
qed

text \<open>
  The loop \<^verbatim>\<open>while pq:\<close>. Each pass either finalizes a pending position or
  only shortens the queue, so the recursion is well-founded from every state.
\<close>

function search_loop ::
  "pathfinder \<Rightarrow> entry list \<Rightarrow> (pos \<rightharpoonup> int) \<Rightarrow> pos set \<Rightarrow> py_error + (pos list option \<times> pos set)" where
  "search_loop pf pq distances explored =
     (case loop_body pf pq distances explored of
        Return r \<Rightarrow> r
      | Continue pq' distances' explored' \<Rightarrow> search_loop pf pq' distances' explored')"
  by pat_completeness auto
termination
proof (relation "measures [\<lambda>(pf, pq, distances, explored). card (pending pf pq explored),
                          \<lambda>(pf, pq, distances, explored). length pq]")
  show "wf (measures [\<lambda>(pf, pq, distances, explored). card (pending pf pq explored),
                          \<lambda>(pf, pq, distances, explored). length pq])"
    by simp
next
  fix pf pq distances explored pq' distances' explored'
  assume "loop_body pf pq distances explored = Continue pq' distances' explored'"
  from loop_body_decreases [OF this]
  show "((pf, pq', distances', explored'), (pf, pq, distances, explored))
        \<in> measures [\<lambda>(pf, pq, distances, explored). card (pending pf pq explored),
                     \<lambda>(pf, pq, distances, explored). length pq]"
    by auto
qed

declare search_loop.simps [simp del]

text \<open>
  \<^verbatim>\<open>find_shortest_path\<close>. When \<^verbatim>\<open>self.start\<close> is \<^verbatim>\<open>None\<close> the queue holds the
  single entry \<^verbatim>\<open>(0, None, [None])\<close>: it is popped, \<^verbatim>\<open>None\<close> is added to the
  explored set, and either \<^verbatim>\<open>None == self.goal\<close> and \<^verbatim>\<open>([None], {None})\<close> is
  returned, or \<^verbatim>\<open>get_neighbors(None)\<close> fails to unpack \<^verbatim>\<open>None\<close> and raises
  \<open>TypeError\<close>. Otherwise every position of the run is a pair.
\<close>

definition find_shortest_path :: "pathfinder \<Rightarrow> py_error + (cell list option \<times> cell set)" where
  "find_shortest_path pf =
     (case start pf of
        None \<Rightarrow> if goal pf = None then Inr (Some [None], {None}) else Inl TypeError
      | Some s \<Rightarrow>
          (case search_loop pf [(0, s, [s])] [s \<mapsto> 0] {} of
             Inl e \<Rightarrow> Inl e
           | Inr (path, explored) \<Rightarrow> Inr (map_option (map Some) path, Some ` explored)))"

section \<open>The grid as a graph\<close>

text \<open>
  The words of the specification: a rectangular grid, a cell that can be entered (in bounds
  and not the blocked marker), one orthogonal step, and a sequence of such steps from one
  position to another.
\<close>

definition rectangular :: "string list \<Rightarrow> bool" where
  "rectangular g = (g \<noteq> [] \<and> (\<forall>row \<in> set g. length row = length (hd g)))"

definition well_formed :: "pathfinder \<Rightarrow> bool" where
  "well_formed pf =
     (rows pf = int (length (grid pf)) \<and> (\<forall>row \<in> set (grid pf). int (length row) = cols pf))"

definition cell_at :: "pathfinder \<Rightarrow> pos \<Rightarrow> char" where
  "cell_at pf p = grid pf ! nat (fst p) ! nat (snd p)"

definition passable :: "pathfinder \<Rightarrow> pos \<Rightarrow> bool" where
  "passable pf p = (in_box pf p \<and> cell_at pf p \<noteq> CHR ''1'')"

definition orth_step :: "pos \<Rightarrow> pos \<Rightarrow> bool" where
  "orth_step p q = (\<bar>fst p - fst q\<bar> + \<bar>snd p - snd q\<bar> = 1)"

fun steps_ok :: "pathfinder \<Rightarrow> pos list \<Rightarrow> bool" where
  "steps_ok pf [] = True"
| "steps_ok pf [p] = True"
| "steps_ok pf (p # q # w) = (orth_step p q \<and> passable pf q \<and> steps_ok pf (q # w))"

definition connects :: "pathfinder \<Rightarrow> pos \<Rightarrow> pos \<Rightarrow> pos list \<Rightarrow> bool" where
  "connects pf s t w = (w \<noteq> [] \<and> hd w = s \<and> last w = t \<and> steps_ok pf w)"

lemma grid_at_in_box:
  assumes "well_formed pf" "in_box pf p"
  shows "grid_at (grid pf) (fst p) (snd p) = Inr (cell_at pf p)"
proof -
  from assms have r: "0 \<le> fst p" "fst p < int (length (grid pf))"
    by (simp_all add: well_formed_def in_box_def)
  then have "nat (fst p) < length (grid pf)" by simp
  then have "grid pf ! nat (fst p) \<in> set (grid pf)" by simp
  with assms have "int (length (grid pf ! nat (fst p))) = cols pf"
    by (simp add: well_formed_def)
  with assms r show ?thesis
    by (simp add: grid_at_def py_index_def cell_at_def in_box_def)
qed

lemma neighbors_loop_filter:
  assumes "well_formed pf"
  shows "neighbors_loop pf row col ds acc =
           Inr (acc @ filter (passable pf) (map (\<lambda>(dr, dc). (row + dr, col + dc)) ds))"
proof (induction ds arbitrary: acc)
  case Nil
  then show ?case by simp
next
  case (Cons d ds)
  obtain dr dc where d: "d = (dr, dc)" by (cases d)
  let ?q = "(row + dr, col + dc)"
  show ?case
  proof (cases "in_box pf ?q")
    case True
    then have cond: "0 \<le> row + dr \<and> row + dr < rows pf \<and> 0 \<le> col + dc \<and> col + dc < cols pf"
      by (simp add: in_box_def)
    from grid_at_in_box [OF assms True]
    have at: "grid_at (grid pf) (row + dr) (col + dc) = Inr (cell_at pf ?q)"
      by simp
    have p: "passable pf ?q \<longleftrightarrow> cell_at pf ?q \<noteq> CHR ''1''"
      using True by (simp add: passable_def)
    show ?thesis
      by (cases "cell_at pf ?q = CHR ''1''") (simp_all add: d Cons.IH Let_def cond at p)
  next
    case False
    then have cond: "\<not> (0 \<le> row + dr \<and> row + dr < rows pf \<and> 0 \<le> col + dc \<and> col + dc < cols pf)"
      by (simp add: in_box_def)
    have p: "\<not> passable pf ?q"
      using False by (simp add: passable_def)
    show ?thesis
      using cond by (auto simp add: d Cons.IH Let_def p)
  qed
qed

lemma orth_step_cases:
  "orth_step (r, c) q \<longleftrightarrow> q = (r - 1, c) \<or> q = (r + 1, c) \<or> q = (r, c - 1) \<or> q = (r, c + 1)"
  by (cases q) (auto simp: orth_step_def)

lemma get_neighbors_well_formed:
  assumes "well_formed pf"
  shows "\<exists>ns. get_neighbors pf p = Inr ns \<and> set ns = {q. orth_step p q \<and> passable pf q}"
proof -
  obtain r c where p: "p = (r, c)" by (cases p)
  have "get_neighbors pf p =
          Inr (filter (passable pf) [(r - 1, c), (r + 1, c), (r, c - 1), (r, c + 1)])"
    by (simp only: get_neighbors_def neighbors_loop_filter [OF assms])
       (simp add: directions_def p)
  moreover have "set (filter (passable pf) [(r - 1, c), (r + 1, c), (r, c - 1), (r, c + 1)])
      = {q. orth_step p q \<and> passable pf q}"
    by (auto simp: p orth_step_cases)
  ultimately show ?thesis by simp
qed

lemma heappop_single: "heappop [e] = (e, [])"
  by (simp add: heappop_def)

lemma loop_body_goal_first:
  "goal pf = Some s \<Longrightarrow> loop_body pf [(0, s, [s])] [s \<mapsto> 0] {} = Return (Inr (Some [s], {s}))"
  by (simp add: loop_body_def heappop_single)

subsection \<open>Sequences of steps\<close>

lemma steps_ok_snoc:
  "steps_ok pf (w @ [q]) \<longleftrightarrow> w = [] \<or> (steps_ok pf w \<and> orth_step (last w) q \<and> passable pf q)"
proof (induction pf w rule: steps_ok.induct)
  case (1 pf)
  then show ?case by simp
next
  case (2 pf p)
  then show ?case by simp
next
  case (3 pf p r w)
  then show ?case by simp
qed

lemma connects_single: "connects pf s s [s]"
  by (simp add: connects_def)

lemma connects_snoc:
  "connects pf s p w \<Longrightarrow> orth_step p q \<Longrightarrow> passable pf q \<Longrightarrow> connects pf s q (w @ [q])"
  by (auto simp: connects_def steps_ok_snoc)

lemma connects_cases:
  assumes "connects pf s t w"
  shows "(w = [s] \<and> t = s) \<or>
         (\<exists>w' p. w = w' @ [t] \<and> connects pf s p w' \<and> orth_step p t \<and> passable pf t)"
proof (cases w rule: rev_cases)
  case Nil
  with assms show ?thesis by (simp add: connects_def)
next
  case (snoc w' x)
  with assms have x: "x = t" by (simp add: connects_def)
  show ?thesis
  proof (cases "w' = []")
    case True
    with assms snoc x show ?thesis by (simp add: connects_def)
  next
    case False
    with assms snoc x have "connects pf s (last w') w'" "orth_step (last w') t" "passable pf t"
      by (auto simp: connects_def steps_ok_snoc)
    with snoc x show ?thesis by blast
  qed
qed

lemma connects_length: "connects pf s t w \<Longrightarrow> 0 < length w"
  by (simp add: connects_def)

subsection \<open>What the relaxation loop does\<close>

lemma relax_one_queue_mono: "set (fst st) \<subseteq> set (fst (relax_one d path st q))"
  by (auto simp: relax_one_def heappush_def Let_def)

lemma relax_queue_mono: "set (fst st) \<subseteq> set (fst (relax d path ns st))"
proof (induction ns arbitrary: st)
  case Nil
  then show ?case by simp
next
  case (Cons q ns)
  from relax_one_queue_mono [of st d path q] Cons.IH [of "relax_one d path st q"]
  show ?case by auto
qed

lemma relax_one_new_entries:
  "e \<in> set (fst (relax_one d path st q)) \<Longrightarrow> e \<in> set (fst st) \<or> e = (d + 1, q, path @ [q])"
  by (auto simp: relax_one_def heappush_def Let_def split: if_splits)

lemma relax_new_entries:
  "e \<in> set (fst (relax d path ns st)) \<Longrightarrow>
     e \<in> set (fst st) \<or> (\<exists>q \<in> set ns. e = (d + 1, q, path @ [q]))"
proof (induction ns arbitrary: st)
  case Nil
  then show ?case by simp
next
  case (Cons q ns)
  from Cons.IH [of "relax_one d path st q"] Cons.prems
  have "e \<in> set (fst (relax_one d path st q)) \<or> (\<exists>q \<in> set ns. e = (d + 1, q, path @ [q]))"
    by simp
  with relax_one_new_entries [of e d path st q] show ?case by auto
qed

lemma relax_one_distance_mono:
  "snd st x = Some dx \<Longrightarrow> \<exists>dx'. snd (relax_one d path st q) x = Some dx' \<and> dx' \<le> dx"
  by (auto simp: relax_one_def Let_def)

lemma relax_distance_mono:
  "snd st x = Some dx \<Longrightarrow> \<exists>dx'. snd (relax d path ns st) x = Some dx' \<and> dx' \<le> dx"
proof (induction ns arbitrary: st dx)
  case Nil
  then show ?case by simp
next
  case (Cons q ns)
  from relax_one_distance_mono [OF Cons.prems, of d path q]
  obtain d1 where d1: "snd (relax_one d path st q) x = Some d1" "d1 \<le> dx" by blast
  from Cons.IH [OF d1(1)] d1(2) show ?case by fastforce
qed

lemma relax_one_relaxed:
  "\<exists>dq. snd (relax_one d path st q) q = Some dq \<and> dq \<le> d + 1"
  by (auto simp: relax_one_def Let_def split: option.splits)

lemma relax_relaxed:
  "q \<in> set ns \<Longrightarrow> \<exists>dq. snd (relax d path ns st) q = Some dq \<and> dq \<le> d + 1"
proof (induction ns arbitrary: st)
  case Nil
  then show ?case by simp
next
  case (Cons x ns)
  show ?case
  proof (cases "q = x")
    case True
    from relax_one_relaxed [of d path st x]
    obtain d1 where d1: "snd (relax_one d path st x) x = Some d1" "d1 \<le> d + 1" by blast
    from relax_distance_mono [OF d1(1), of d path ns] d1(2) True
    show ?thesis by fastforce
  next
    case False
    with Cons.prems have "q \<in> set ns" by simp
    from Cons.IH [OF this, of "relax_one d path st x"] show ?thesis by simp
  qed
qed

lemma relax_one_changed:
  "snd (relax_one d path st q) x = snd st x \<or>
   (x = q \<and> snd (relax_one d path st q) x = Some (d + 1) \<and>
    (d + 1, q, path @ [q]) \<in> set (fst (relax_one d path st q)))"
  by (auto simp: relax_one_def heappush_def Let_def)

lemma relax_changed:
  "snd (relax d path ns st) x = snd st x \<or>
   (x \<in> set ns \<and> snd (relax d path ns st) x = Some (d + 1) \<and>
    (d + 1, x, path @ [x]) \<in> set (fst (relax d path ns st)))"
proof (induction ns arbitrary: st)
  case Nil
  then show ?case by simp
next
  case (Cons q ns)
  let ?st1 = "relax_one d path st q"
  from Cons.IH [of ?st1]
  consider "snd (relax d path ns ?st1) x = snd ?st1 x"
    | "x \<in> set ns" "snd (relax d path ns ?st1) x = Some (d + 1)"
      "(d + 1, x, path @ [x]) \<in> set (fst (relax d path ns ?st1))"
    by blast
  then show ?case
  proof cases
    case 1
    from relax_one_changed [of d path st q x]
    show ?thesis
    proof
      assume "snd ?st1 x = snd st x"
      with 1 show ?thesis by simp
    next
      assume a: "x = q \<and> snd ?st1 x = Some (d + 1) \<and> (d + 1, q, path @ [q]) \<in> set (fst ?st1)"
      with relax_queue_mono [of ?st1 d path ns]
      have "(d + 1, x, path @ [x]) \<in> set (fst (relax d path ns ?st1))" by auto
      moreover from a have "x = q" by blast
      moreover from a have "snd ?st1 x = Some (d + 1)" by blast
      with 1 have "snd (relax d path ns ?st1) x = Some (d + 1)" by simp
      ultimately have "x \<in> set (q # ns) \<and> snd (relax d path (q # ns) st) x = Some (d + 1) \<and>
          (d + 1, x, path @ [x]) \<in> set (fst (relax d path (q # ns) st))"
        by simp
      then show ?thesis by blast
    qed
  next
    case 2
    then show ?thesis by simp
  qed
qed

subsection \<open>The invariant of the search loop\<close>

text \<open>
  For a start position \<open>s\<close>: every queue entry carries a sequence of steps from \<open>s\<close> to its
  position and the number of its edges; a position with a distance that is not explored
  has a queue entry at that distance; for an explored position there is a lower bound on
  every sequence of steps reaching it, and all its neighbours have been relaxed against that
  bound; the start has a distance of at most zero; the goal is not explored; explored
  positions are reachable.
\<close>

definition queue_ok :: "pathfinder \<Rightarrow> pos \<Rightarrow> entry list \<Rightarrow> bool" where
  "queue_ok pf s pq =
     (\<forall>d p path. (d, p, path) \<in> set pq \<longrightarrow> connects pf s p path \<and> d = int (length path) - 1)"

definition settled :: "pathfinder \<Rightarrow> pos \<Rightarrow> (pos \<rightharpoonup> int) \<Rightarrow> pos \<Rightarrow> bool" where
  "settled pf s distances u =
     (\<exists>du. (\<forall>w. connects pf s u w \<longrightarrow> du \<le> int (length w) - 1) \<and>
           (\<forall>q. orth_step u q \<and> passable pf q \<longrightarrow>
                (\<exists>dq. distances q = Some dq \<and> dq \<le> du + 1)))"

definition search_inv ::
  "pathfinder \<Rightarrow> pos \<Rightarrow> entry list \<Rightarrow> (pos \<rightharpoonup> int) \<Rightarrow> pos set \<Rightarrow> bool" where
  "search_inv pf s pq distances explored =
     (queue_ok pf s pq \<and>
      (\<forall>p d. distances p = Some d \<and> p \<notin> explored \<longrightarrow> (\<exists>path. (d, p, path) \<in> set pq)) \<and>
      (\<forall>u \<in> explored. settled pf s distances u) \<and>
      (\<exists>d0. distances s = Some d0 \<and> d0 \<le> 0) \<and>
      (\<forall>p \<in> explored. Some p \<noteq> goal pf) \<and>
      (\<forall>p \<in> explored. \<exists>w. connects pf s p w))"

lemma search_inv_init: "search_inv pf s [(0, s, [s])] [s \<mapsto> 0] {}"
  by (auto simp: search_inv_def queue_ok_def connects_single split: if_splits)

lemma min_list_le:
  fixes pq :: "entry list"
  assumes "e \<in> set pq"
  shows "fst (min_list pq) \<le> fst e"
proof -
  from assms have ne: "pq \<noteq> []" by auto
  have "min_list pq \<le> e"
    using assms by (simp add: min_list_Min [OF ne])
  then show ?thesis
    by (cases "min_list pq"; cases e) (auto simp: less_eq_prod_def)
qed

text \<open>No sequence of steps to an unexplored position is shorter than the queue's minimum.\<close>

lemma queue_min_lower_bound:
  assumes inv: "search_inv pf s pq distances explored"
    and w: "connects pf s q w" and q: "q \<notin> explored"
  shows "fst (min_list pq) \<le> int (length w) - 1"
  using w q
proof (induction w arbitrary: q rule: rev_induct)
  case Nil
  then show ?case by (simp add: connects_def)
next
  case (snoc x w')
  from inv have j4: "\<And>p d. distances p = Some d \<Longrightarrow> p \<notin> explored \<Longrightarrow> \<exists>path. (d, p, path) \<in> set pq"
    by (auto simp: search_inv_def)
  from connects_cases [OF snoc.prems(1)]
  show ?case
  proof
    assume "w' @ [x] = [s] \<and> q = s"
    then have l: "length (w' @ [x]) = 1" and qs: "q = s" by simp_all
    from inv obtain d0 where d0: "distances s = Some d0" "d0 \<le> 0"
      by (auto simp: search_inv_def)
    from j4 [OF d0(1)] snoc.prems(2) qs obtain path where "(d0, s, path) \<in> set pq" by blast
    from min_list_le [OF this] d0(2) l show ?thesis by simp
  next
    assume "\<exists>w'' p. w' @ [x] = w'' @ [q] \<and> connects pf s p w'' \<and> orth_step p q \<and> passable pf q"
    then obtain p where p: "connects pf s p w'" "orth_step p q" "passable pf q"
      by auto
    show ?thesis
    proof (cases "p \<in> explored")
      case False
      from snoc.IH [OF p(1) False] show ?thesis by simp
    next
      case True
      with inv have "settled pf s distances p" by (simp add: search_inv_def)
      then obtain du where du: "\<And>w. connects pf s p w \<Longrightarrow> du \<le> int (length w) - 1"
        and nb: "\<And>q. orth_step p q \<Longrightarrow> passable pf q \<Longrightarrow> \<exists>dq. distances q = Some dq \<and> dq \<le> du + 1"
        unfolding settled_def by blast
      from nb [OF p(2) p(3)] obtain dq where dq: "distances q = Some dq" "dq \<le> du + 1" by blast
      from j4 [OF dq(1) snoc.prems(2)] obtain path where "(dq, q, path) \<in> set pq" by blast
      from min_list_le [OF this] have "fst (min_list pq) \<le> dq" by simp
      with dq(2) du [OF p(1)] show ?thesis by simp
    qed
  qed
qed

subsection \<open>The cases of the loop body\<close>

lemma loop_body_empty: "loop_body pf [] distances explored = Return (Inr (None, explored))"
  by (simp add: loop_body_def)

lemma loop_body_stale:
  assumes "pq \<noteq> []" "min_list pq = (d, p, path)" "p \<in> explored"
  shows "loop_body pf pq distances explored = Continue (remove1 (d, p, path) pq) distances explored"
  using assms by (simp add: loop_body_def heappop_def)

lemma loop_body_goal:
  assumes "pq \<noteq> []" "min_list pq = (d, p, path)" "p \<notin> explored" "Some p = goal pf"
  shows "loop_body pf pq distances explored = Return (Inr (Some path, insert p explored))"
  using assms by (simp add: loop_body_def heappop_def)

lemma loop_body_raise:
  assumes "pq \<noteq> []" "min_list pq = (d, p, path)" "p \<notin> explored" "Some p \<noteq> goal pf"
    "get_neighbors pf p = Inl e"
  shows "loop_body pf pq distances explored = Return (Inl e)"
  using assms by (simp add: loop_body_def heappop_def)

lemma loop_body_expand:
  assumes "pq \<noteq> []" "min_list pq = (d, p, path)" "p \<notin> explored" "Some p \<noteq> goal pf"
    "get_neighbors pf p = Inr ns"
  shows "loop_body pf pq distances explored =
           Continue (fst (relax d path ns (remove1 (d, p, path) pq, distances)))
                    (snd (relax d path ns (remove1 (d, p, path) pq, distances)))
                    (insert p explored)"
  using assms by (simp add: loop_body_def heappop_def split: prod.splits)

subsection \<open>The invariant is kept\<close>

lemma search_inv_stale:
  assumes inv: "search_inv pf s pq distances explored"
    and m: "(d, p, path) \<in> set pq" and p: "p \<in> explored"
  shows "search_inv pf s (remove1 (d, p, path) pq) distances explored"
proof -
  have sub: "set (remove1 (d, p, path) pq) \<subseteq> set pq"
    by (rule set_remove1_subset)
  have q: "queue_ok pf s (remove1 (d, p, path) pq)"
    using inv sub unfolding search_inv_def queue_ok_def by blast
  have j4: "\<exists>path'. (dx, x, path') \<in> set (remove1 (d, p, path) pq)"
    if "distances x = Some dx" "x \<notin> explored" for x dx
  proof -
    from inv that obtain path' where e: "(dx, x, path') \<in> set pq"
      unfolding search_inv_def by blast
    from that p have "(dx, x, path') \<noteq> (d, p, path)" by auto
    with e have "(dx, x, path') \<in> set (remove1 (d, p, path) pq)" by simp
    then show ?thesis by blast
  qed
  from inv q j4 show ?thesis
    unfolding search_inv_def by blast
qed

lemma settled_mono:
  assumes "settled pf s distances u"
    and "\<And>x dx. distances x = Some dx \<Longrightarrow> \<exists>dx'. distances' x = Some dx' \<and> dx' \<le> dx"
  shows "settled pf s distances' u"
proof -
  from assms(1) obtain du where du: "\<And>w. connects pf s u w \<Longrightarrow> du \<le> int (length w) - 1"
    and nb: "\<And>q. orth_step u q \<Longrightarrow> passable pf q \<Longrightarrow> \<exists>dq. distances q = Some dq \<and> dq \<le> du + 1"
    unfolding settled_def by blast
  have "\<exists>dq. distances' q = Some dq \<and> dq \<le> du + 1" if "orth_step u q" "passable pf q" for q
  proof -
    from nb [OF that] obtain dq where dq: "distances q = Some dq" "dq \<le> du + 1" by blast
    from assms(2) [OF dq(1)] dq(2) show ?thesis by fastforce
  qed
  with du show ?thesis unfolding settled_def by blast
qed

lemma search_inv_expand:
  assumes inv: "search_inv pf s pq distances explored"
    and ne: "pq \<noteq> []" and m: "min_list pq = (d, p, path)"
    and p: "p \<notin> explored" and g: "Some p \<noteq> goal pf"
    and ns: "set ns = {q. orth_step p q \<and> passable pf q}"
  shows "search_inv pf s (fst (relax d path ns (remove1 (d, p, path) pq, distances)))
           (snd (relax d path ns (remove1 (d, p, path) pq, distances))) (insert p explored)"
proof -
  let ?st0 = "(remove1 (d, p, path) pq, distances)"
  let ?pq' = "fst (relax d path ns ?st0)"
  let ?dist' = "snd (relax d path ns ?st0)"
  have mem: "(d, p, path) \<in> set pq"
    using min_list_mem [OF ne] m by simp
  from inv mem have cp: "connects pf s p path" and dl: "d = int (length path) - 1"
    unfolding search_inv_def queue_ok_def by blast+
  have mono: "\<exists>dx'. ?dist' x = Some dx' \<and> dx' \<le> dx" if "distances x = Some dx" for x dx
    using relax_distance_mono [of ?st0 x dx d path ns] that by simp
  have q: "queue_ok pf s ?pq'"
    unfolding queue_ok_def
  proof (intro allI impI)
    fix d' p' path'
    assume "(d', p', path') \<in> set ?pq'"
    from relax_new_entries [OF this]
    show "connects pf s p' path' \<and> d' = int (length path') - 1"
    proof
      assume "(d', p', path') \<in> set (fst ?st0)"
      then have "(d', p', path') \<in> set pq"
        using set_remove1_subset [of "(d, p, path)" pq] by auto
      with inv show ?thesis unfolding search_inv_def queue_ok_def by blast
    next
      assume "\<exists>q \<in> set ns. (d', p', path') = (d + 1, q, path @ [q])"
      then have qn: "p' \<in> set ns" and e: "d' = d + 1" "path' = path @ [p']"
        by auto
      from qn ns have "orth_step p p'" "passable pf p'" by auto
      from connects_snoc [OF cp this] e dl show ?thesis by simp
    qed
  qed
  have j4: "\<exists>path'. (dx, x, path') \<in> set ?pq'"
    if x: "?dist' x = Some dx" "x \<notin> insert p explored" for x dx
  proof -
    from relax_changed [of d path ns ?st0 x]
    show ?thesis
    proof
      assume "?dist' x = snd ?st0 x"
      with x have "distances x = Some dx" "x \<notin> explored" by simp_all
      with inv obtain path' where e: "(dx, x, path') \<in> set pq"
        unfolding search_inv_def by blast
      from x have "(dx, x, path') \<noteq> (d, p, path)" by auto
      with e have "(dx, x, path') \<in> set (fst ?st0)" by simp
      with relax_queue_mono [of ?st0 d path ns] show ?thesis by blast
    next
      assume "x \<in> set ns \<and> ?dist' x = Some (d + 1) \<and> (d + 1, x, path @ [x]) \<in> set ?pq'"
      with x show ?thesis by auto
    qed
  qed
  have j3: "settled pf s ?dist' u" if "u \<in> insert p explored" for u
  proof (cases "u = p")
    case False
    with that inv have "settled pf s distances u" by (simp add: search_inv_def)
    then show ?thesis
      by (rule settled_mono) (rule mono)
  next
    case True
    have lb: "d \<le> int (length w) - 1" if "connects pf s p w" for w
      using queue_min_lower_bound [OF inv that p] m by simp
    have "\<exists>dq. ?dist' q = Some dq \<and> dq \<le> d + 1" if "orth_step p q" "passable pf q" for q
    proof -
      from that ns have "q \<in> set ns" by simp
      from relax_relaxed [OF this] show ?thesis .
    qed
    with lb True show ?thesis unfolding settled_def by blast
  qed
  have j5: "\<exists>d0. ?dist' s = Some d0 \<and> d0 \<le> 0"
  proof -
    from inv obtain d0 where d0: "distances s = Some d0" "d0 \<le> 0"
      unfolding search_inv_def by blast
    from mono [OF d0(1)] d0(2) show ?thesis by fastforce
  qed
  have j6: "\<forall>x \<in> insert p explored. Some x \<noteq> goal pf"
    using inv g unfolding search_inv_def by blast
  have j7: "\<forall>x \<in> insert p explored. \<exists>w. connects pf s x w"
    using inv cp unfolding search_inv_def by blast
  from q j4 j3 j5 j6 j7 show ?thesis
    unfolding search_inv_def by blast
qed

subsection \<open>What the search returns\<close>

definition reachable :: "pathfinder \<Rightarrow> pos \<Rightarrow> pos set" where
  "reachable pf s = {p. \<exists>w. connects pf s p w}"

definition search_post ::
  "pathfinder \<Rightarrow> pos \<Rightarrow> py_error + (pos list option \<times> pos set) \<Rightarrow> bool" where
  "search_post pf s r =
     (case r of
        Inl e \<Rightarrow> False
      | Inr (None, explored) \<Rightarrow>
          explored = reachable pf s \<and> (\<forall>t. goal pf = Some t \<longrightarrow> t \<notin> reachable pf s)
      | Inr (Some path, explored) \<Rightarrow>
          (\<exists>t. goal pf = Some t \<and> connects pf s t path \<and>
               (\<forall>w. connects pf s t w \<longrightarrow> length path \<le> length w) \<and>
               s \<in> explored \<and> t \<in> explored \<and> explored \<subseteq> reachable pf s))"

lemma search_post_found:
  assumes "goal pf = Some t" "connects pf s t path"
    "\<And>w. connects pf s t w \<Longrightarrow> length path \<le> length w"
    "s \<in> explored" "t \<in> explored" "explored \<subseteq> reachable pf s"
  shows "search_post pf s (Inr (Some path, explored))"
  using assms by (simp add: search_post_def)

lemma empty_queue_explored:
  assumes inv: "search_inv pf s [] distances explored" and w: "connects pf s q w"
  shows "q \<in> explored"
  using w
proof (induction w arbitrary: q rule: rev_induct)
  case Nil
  then show ?case by (simp add: connects_def)
next
  case (snoc x w')
  from inv have j4: "\<And>p d. distances p = Some d \<Longrightarrow> p \<in> explored"
    unfolding search_inv_def by fastforce
  from connects_cases [OF snoc.prems]
  show ?case
  proof
    assume "w' @ [x] = [s] \<and> q = s"
    moreover from inv obtain d0 where "distances s = Some d0"
      unfolding search_inv_def by blast
    ultimately show ?thesis using j4 by blast
  next
    assume "\<exists>w'' p. w' @ [x] = w'' @ [q] \<and> connects pf s p w'' \<and> orth_step p q \<and> passable pf q"
    then obtain p where p: "connects pf s p w'" "orth_step p q" "passable pf q"
      by auto
    from snoc.IH [OF p(1)] inv have "settled pf s distances p"
      by (simp add: search_inv_def)
    with p(2,3) obtain dq where "distances q = Some dq"
      unfolding settled_def by blast
    then show ?thesis by (rule j4)
  qed
qed

lemma first_pop_is_start:
  assumes inv: "search_inv pf s pq distances explored"
    and ne: "pq \<noteq> []" and m: "min_list pq = (d, p, path)" and s: "s \<notin> explored"
  shows "p = s"
proof -
  have mem: "(d, p, path) \<in> set pq"
    using min_list_mem [OF ne] m by simp
  with inv have cp: "connects pf s p path" and dl: "d = int (length path) - 1"
    unfolding search_inv_def queue_ok_def by blast+
  from inv obtain d0 where d0: "distances s = Some d0" "d0 \<le> 0"
    unfolding search_inv_def by blast
  with inv s obtain path0 where "(d0, s, path0) \<in> set pq"
    unfolding search_inv_def by blast
  from min_list_le [OF this] m d0(2) have "d \<le> 0" by simp
  with dl connects_length [OF cp] have "length path = 1" by arith
  then obtain x where "path = [x]"
    by (cases path) auto
  with cp show ?thesis by (auto simp: connects_def)
qed

lemma search_loop_correct:
  assumes "well_formed pf" "search_inv pf s pq distances explored"
  shows "search_post pf s (search_loop pf pq distances explored)"
  using assms
proof (induction pf pq distances explored rule: search_loop.induct)
  case (1 pf pq distances explored)
  note inv = \<open>search_inv pf s pq distances explored\<close>
  note wf = \<open>well_formed pf\<close>
  show ?case
  proof (cases "pq = []")
    case True
    have "explored = reachable pf s"
    proof
      show "explored \<subseteq> reachable pf s"
        using inv unfolding search_inv_def reachable_def by blast
      show "reachable pf s \<subseteq> explored"
        using empty_queue_explored inv True unfolding reachable_def by blast
    qed
    moreover have "t \<notin> explored" if "goal pf = Some t" for t
      using inv that unfolding search_inv_def by force
    ultimately have "search_post pf s (Inr (None, explored))"
      by (simp add: search_post_def)
    with True show ?thesis
      by (subst search_loop.simps) (simp add: loop_body_empty)
  next
    case False
    obtain d p path where m: "min_list pq = (d, p, path)"
      by (cases "min_list pq") auto
    have mem: "(d, p, path) \<in> set pq"
      using min_list_mem [OF False] m by simp
    show ?thesis
    proof (cases "p \<in> explored")
      case True
      note step = loop_body_stale [OF False m True, of pf distances]
      from "1.IH" [OF step wf search_inv_stale [OF inv mem True]]
      show ?thesis
        by (subst search_loop.simps) (simp add: step)
    next
      case unexplored: False
      show ?thesis
      proof (cases "Some p = goal pf")
        case True
        note step = loop_body_goal [OF False m unexplored True, of distances]
        from inv mem have cp: "connects pf s p path" and dl: "d = int (length path) - 1"
          unfolding search_inv_def queue_ok_def by blast+
        have g: "goal pf = Some p" using True by simp
        have short: "length path \<le> length w" if "connects pf s p w" for w
          using queue_min_lower_bound [OF inv that unexplored] m dl by simp
        have st: "s \<in> insert p explored"
          using first_pop_is_start [OF inv False m] by blast
        have sub: "insert p explored \<subseteq> reachable pf s"
          using inv cp unfolding search_inv_def reachable_def by blast
        have "search_post pf s (Inr (Some path, insert p explored))"
          by (rule search_post_found [OF g cp short st _ sub]) simp_all
        then show ?thesis
          by (subst search_loop.simps) (simp add: step)
      next
        case notgoal: False
        from get_neighbors_well_formed [OF wf, of p] obtain ns where
          ns: "get_neighbors pf p = Inr ns" "set ns = {q. orth_step p q \<and> passable pf q}"
          by blast
        note step = loop_body_expand [OF False m unexplored notgoal ns(1), of distances]
        from "1.IH" [OF step wf search_inv_expand [OF inv False m unexplored notgoal ns(2)]]
        show ?thesis
          by (subst search_loop.simps) (simp add: step)
      qed
    qed
  qed
qed

subsection \<open>Construction on a rectangular grid\<close>

definition has_marker :: "string list \<Rightarrow> char \<Rightarrow> bool" where
  "has_marker g ch = (\<exists>row \<in> set g. ch \<in> set row)"

lemma find_in_row_frame:
  "grid pf' = grid pf \<Longrightarrow> find_in_row pf' ch i js = find_in_row pf ch i js"
  by (induction js) (simp_all split: sum.splits)

lemma find_in_rows_frame:
  "grid pf' = grid pf \<Longrightarrow> cols pf' = cols pf \<Longrightarrow>
     find_in_rows pf' ch rs = find_in_rows pf ch rs"
  by (induction rs) (simp_all add: find_in_row_frame [of pf' pf] split: sum.splits option.splits)

lemma find_position_frame:
  "grid pf' = grid pf \<Longrightarrow> rows pf' = rows pf \<Longrightarrow> cols pf' = cols pf \<Longrightarrow>
     find_position pf' ch = find_position pf ch"
  by (simp add: find_position_def find_in_rows_frame [of pf' pf])

lemma find_in_row_result:
  assumes wf: "well_formed pf" and i: "0 \<le> i" "i < rows pf"
    and js: "\<forall>j \<in> set js. 0 \<le> j \<and> j < cols pf"
  shows "(find_in_row pf ch i js = Inr None \<and> (\<forall>j \<in> set js. cell_at pf (i, j) \<noteq> ch)) \<or>
         (\<exists>p. find_in_row pf ch i js = Inr (Some p) \<and> in_box pf p \<and> cell_at pf p = ch)"
  using js
proof (induction js)
  case Nil
  then show ?case by simp
next
  case (Cons j js)
  from Cons.prems have box: "in_box pf (i, j)"
    using i by (simp add: in_box_def)
  from grid_at_in_box [OF wf box]
  have at: "grid_at (grid pf) i j = Inr (cell_at pf (i, j))" by simp
  show ?case
  proof (cases "cell_at pf (i, j) = ch")
    case True
    with at box show ?thesis by simp
  next
    case False
    from Cons.prems have "\<forall>j \<in> set js. 0 \<le> j \<and> j < cols pf" by simp
    from Cons.IH [OF this] at False show ?thesis by auto
  qed
qed

lemma find_in_rows_result:
  assumes wf: "well_formed pf" and rs: "\<forall>i \<in> set rs. 0 \<le> i \<and> i < rows pf"
  shows "(find_in_rows pf ch rs = Inr None \<and>
            (\<forall>i \<in> set rs. \<forall>j. 0 \<le> j \<and> j < cols pf \<longrightarrow> cell_at pf (i, j) \<noteq> ch)) \<or>
         (\<exists>p. find_in_rows pf ch rs = Inr (Some p) \<and> in_box pf p \<and> cell_at pf p = ch)"
  using rs
proof (induction rs)
  case Nil
  then show ?case by simp
next
  case (Cons i rs)
  from Cons.prems have i: "0 \<le> i" "i < rows pf" by simp_all
  from Cons.prems have rest: "\<forall>i \<in> set rs. 0 \<le> i \<and> i < rows pf" by simp
  have js: "\<forall>j \<in> set [0..cols pf - 1]. 0 \<le> j \<and> j < cols pf" by simp
  from find_in_row_result [OF wf i js, of ch]
  show ?case
  proof
    assume a: "find_in_row pf ch i [0..cols pf - 1] = Inr None \<and>
      (\<forall>j \<in> set [0..cols pf - 1]. cell_at pf (i, j) \<noteq> ch)"
    then have row: "\<forall>j. 0 \<le> j \<and> j < cols pf \<longrightarrow> cell_at pf (i, j) \<noteq> ch" by simp
    from Cons.IH [OF rest] a row show ?thesis by auto
  next
    assume "\<exists>p. find_in_row pf ch i [0..cols pf - 1] = Inr (Some p) \<and> in_box pf p \<and> cell_at pf p = ch"
    then show ?thesis by auto
  qed
qed

lemma find_position_result:
  assumes wf: "well_formed pf"
  shows "(find_position pf ch = Inr None \<and> (\<forall>p. in_box pf p \<longrightarrow> cell_at pf p \<noteq> ch)) \<or>
         (\<exists>p. find_position pf ch = Inr (Some p) \<and> in_box pf p \<and> cell_at pf p = ch)"
proof -
  have rs: "\<forall>i \<in> set [0..rows pf - 1]. 0 \<le> i \<and> i < rows pf" by simp
  from find_in_rows_result [OF wf rs, of ch]
  show ?thesis
  proof
    assume a: "find_in_rows pf ch [0..rows pf - 1] = Inr None \<and>
            (\<forall>i \<in> set [0..rows pf - 1]. \<forall>j. 0 \<le> j \<and> j < cols pf \<longrightarrow> cell_at pf (i, j) \<noteq> ch)"
    have "cell_at pf p \<noteq> ch" if "in_box pf p" for p
    proof -
      obtain i j where p: "p = (i, j)" by (cases p)
      with that have "0 \<le> i" "i < rows pf" "0 \<le> j" "j < cols pf"
        by (simp_all add: in_box_def)
      with a p show ?thesis by simp
    qed
    with a show ?thesis by (simp add: find_position_def)
  next
    assume "\<exists>p. find_in_rows pf ch [0..rows pf - 1] = Inr (Some p) \<and> in_box pf p \<and> cell_at pf p = ch"
    then show ?thesis by (simp add: find_position_def)
  qed
qed

lemma has_marker_cell:
  assumes wf: "well_formed pf"
  shows "has_marker (grid pf) ch \<longleftrightarrow> (\<exists>p. in_box pf p \<and> cell_at pf p = ch)"
proof
  assume "has_marker (grid pf) ch"
  then obtain row where row: "row \<in> set (grid pf)" "ch \<in> set row"
    by (auto simp: has_marker_def)
  then obtain i where i: "i < length (grid pf)" "grid pf ! i = row"
    by (auto simp: in_set_conv_nth)
  from row obtain j where j: "j < length row" "row ! j = ch"
    by (auto simp: in_set_conv_nth)
  from wf row have "int (length row) = cols pf" by (simp add: well_formed_def)
  with i j wf have "in_box pf (int i, int j)" "cell_at pf (int i, int j) = ch"
    by (auto simp: in_box_def cell_at_def well_formed_def)
  then show "\<exists>p. in_box pf p \<and> cell_at pf p = ch" by blast
next
  assume "\<exists>p. in_box pf p \<and> cell_at pf p = ch"
  then obtain p where p: "in_box pf p" "cell_at pf p = ch" by blast
  with wf have r: "nat (fst p) < length (grid pf)"
    by (auto simp: in_box_def well_formed_def)
  then have mem: "grid pf ! nat (fst p) \<in> set (grid pf)" by simp
  with wf have "int (length (grid pf ! nat (fst p))) = cols pf"
    by (simp add: well_formed_def)
  with p have "nat (snd p) < length (grid pf ! nat (fst p))"
    by (auto simp: in_box_def)
  then have "grid pf ! nat (fst p) ! nat (snd p) \<in> set (grid pf ! nat (fst p))" by simp
  with p mem show "has_marker (grid pf) ch"
    by (auto simp: has_marker_def cell_at_def)
qed

subsection \<open>The object that \<^verbatim>\<open>__init__\<close> builds\<close>

text \<open>The object before the two scans, and \<^verbatim>\<open>__init__\<close> written with it.\<close>

definition blank :: "string list \<Rightarrow> pathfinder" where
  "blank g = \<lparr>grid = g, rows = int (length g), cols = int (length (hd g)),
              start = None, goal = None\<rparr>"

lemma blank_fields:
  "grid (blank g) = g" "rows (blank g) = int (length g)" "cols (blank g) = int (length (hd g))"
  by (simp_all add: blank_def)

lemma init_unfold:
  "init g =
     (if g = [] then Inl IndexError
      else case find_position (blank g) CHR ''S'' of
             Inl e \<Rightarrow> Inl e
           | Inr s \<Rightarrow>
               (case find_position (blank g\<lparr>start := s\<rparr>) CHR ''G'' of
                  Inl e \<Rightarrow> Inl e
                | Inr t \<Rightarrow> Inr (blank g\<lparr>start := s, goal := t\<rparr>)))"
  by (cases g) (auto simp: init_def blank_def Let_def split: sum.splits)

lemma init_fields:
  assumes "init g = Inr pf"
  shows "grid pf = g" "rows pf = int (length g)" "cols pf = int (length (hd g))" "g \<noteq> []"
    "find_position pf CHR ''S'' = Inr (start pf)" "find_position pf CHR ''G'' = Inr (goal pf)"
proof -
  from assms show ne: "g \<noteq> []"
    by (auto simp: init_unfold)
  from assms ne obtain s where
    s: "find_position (blank g) CHR ''S'' = Inr s"
    by (cases "find_position (blank g) CHR ''S''") (simp_all add: init_unfold)
  from assms ne s obtain t where
    t: "find_position (blank g\<lparr>start := s\<rparr>) CHR ''G'' = Inr t"
    by (cases "find_position (blank g\<lparr>start := s\<rparr>) CHR ''G''") (simp_all add: init_unfold)
  from assms ne s t have pf: "pf = blank g\<lparr>start := s, goal := t\<rparr>"
    by (simp add: init_unfold)
  show "grid pf = g" "rows pf = int (length g)" "cols pf = int (length (hd g))"
    by (simp_all add: pf blank_fields)
  have "find_position pf CHR ''S'' = find_position (blank g) CHR ''S''"
    by (rule find_position_frame) (simp_all add: pf)
  with s show "find_position pf CHR ''S'' = Inr (start pf)" by (simp add: pf)
  have "find_position pf CHR ''G'' = find_position (blank g\<lparr>start := s\<rparr>) CHR ''G''"
    by (rule find_position_frame) (simp_all add: pf)
  with t show "find_position pf CHR ''G'' = Inr (goal pf)" by (simp add: pf)
qed

lemma init_well_formed:
  assumes "init g = Inr pf" "rectangular g"
  shows "well_formed pf"
proof -
  have "int (length row) = cols pf" if "row \<in> set (grid pf)" for row
  proof -
    from that init_fields(1) [OF assms(1)] have "row \<in> set g" by simp
    with assms(2) have "length row = length (hd g)"
      unfolding rectangular_def by blast
    with init_fields(3) [OF assms(1)] show ?thesis by simp
  qed
  with init_fields(1,2) [OF assms(1)] show ?thesis
    unfolding well_formed_def by blast
qed

lemma well_formed_frame:
  "grid pf' = grid pf \<Longrightarrow> rows pf' = rows pf \<Longrightarrow> cols pf' = cols pf \<Longrightarrow>
     well_formed pf' = well_formed pf"
  by (simp add: well_formed_def)

lemma init_rectangular:
  assumes "rectangular g"
  shows "\<exists>pf. init g = Inr pf"
proof -
  from assms have ne: "g \<noteq> []" by (simp add: rectangular_def)
  have "int (length row) = int (length (hd g))" if "row \<in> set g" for row
  proof -
    from assms that have "length row = length (hd g)"
      unfolding rectangular_def by blast
    then show ?thesis by (rule arg_cong)
  qed
  then have wf0: "well_formed (blank g)"
    unfolding well_formed_def blank_fields by blast
  from find_position_result [OF wf0, of "CHR ''S''"]
  obtain s where s: "find_position (blank g) CHR ''S'' = Inr s" by blast
  have "well_formed (blank g\<lparr>start := s\<rparr>) = well_formed (blank g)"
    by (rule well_formed_frame) simp_all
  with wf0 have wf1: "well_formed (blank g\<lparr>start := s\<rparr>)" by simp
  from find_position_result [OF wf1, of "CHR ''G''"]
  obtain t where t: "find_position (blank g\<lparr>start := s\<rparr>) CHR ''G'' = Inr t" by blast
  from ne s t show ?thesis
    by (simp add: init_unfold)
qed

lemma init_start:
  assumes i: "init g = Inr pf" and r: "rectangular g"
  shows "(start pf = None \<and> \<not> has_marker g CHR ''S'') \<or>
         (\<exists>s. start pf = Some s \<and> in_box pf s \<and> cell_at pf s = CHR ''S'')"
proof -
  note wf = init_well_formed [OF i r]
  from find_position_result [OF wf, of "CHR ''S''"]
  show ?thesis
  proof
    assume a: "find_position pf CHR ''S'' = Inr None \<and> (\<forall>p. in_box pf p \<longrightarrow> cell_at pf p \<noteq> CHR ''S'')"
    with init_fields(5) [OF i] have "start pf = None" by simp
    moreover from a has_marker_cell [OF wf, of "CHR ''S''"] init_fields(1) [OF i]
    have "\<not> has_marker g CHR ''S''" by blast
    ultimately show ?thesis by blast
  next
    assume "\<exists>p. find_position pf CHR ''S'' = Inr (Some p) \<and> in_box pf p \<and> cell_at pf p = CHR ''S''"
    then obtain p where p: "find_position pf CHR ''S'' = Inr (Some p)" "in_box pf p" "cell_at pf p = CHR ''S''"
      by blast
    from p(1) init_fields(5) [OF i] have "start pf = Some p" by simp
    with p(2,3) show ?thesis by blast
  qed
qed

lemma init_goal:
  assumes i: "init g = Inr pf" and r: "rectangular g"
  shows "(goal pf = None \<and> \<not> has_marker g CHR ''G'') \<or>
         (\<exists>t. goal pf = Some t \<and> in_box pf t \<and> cell_at pf t = CHR ''G'')"
proof -
  note wf = init_well_formed [OF i r]
  from find_position_result [OF wf, of "CHR ''G''"]
  show ?thesis
  proof
    assume a: "find_position pf CHR ''G'' = Inr None \<and> (\<forall>p. in_box pf p \<longrightarrow> cell_at pf p \<noteq> CHR ''G'')"
    with init_fields(6) [OF i] have "goal pf = None" by simp
    moreover from a has_marker_cell [OF wf, of "CHR ''G''"] init_fields(1) [OF i]
    have "\<not> has_marker g CHR ''G''" by blast
    ultimately show ?thesis by blast
  next
    assume "\<exists>p. find_position pf CHR ''G'' = Inr (Some p) \<and> in_box pf p \<and> cell_at pf p = CHR ''G''"
    then obtain p where p: "find_position pf CHR ''G'' = Inr (Some p)" "in_box pf p" "cell_at pf p = CHR ''G''"
      by blast
    from p(1) init_fields(6) [OF i] have "goal pf = Some p" by simp
    with p(2,3) show ?thesis by blast
  qed
qed

subsection \<open>From the loop to \<^verbatim>\<open>find_shortest_path\<close>\<close>

lemma search_from_start:
  assumes wf: "well_formed pf" and s: "start pf = Some s"
  obtains po ex where
    "search_loop pf [(0, s, [s])] [s \<mapsto> 0] {} = Inr (po, ex)"
    "search_post pf s (Inr (po, ex))"
    "find_shortest_path pf = Inr (map_option (map Some) po, Some ` ex)"
proof -
  have post: "search_post pf s (search_loop pf [(0, s, [s])] [s \<mapsto> 0] {})"
    by (rule search_loop_correct [OF wf search_inv_init])
  then obtain po ex where r: "search_loop pf [(0, s, [s])] [s \<mapsto> 0] {} = Inr (po, ex)"
    by (cases "search_loop pf [(0, s, [s])] [s \<mapsto> 0] {}") (auto simp: search_post_def)
  with post have "search_post pf s (Inr (po, ex))" by simp
  moreover from r s have "find_shortest_path pf = Inr (map_option (map Some) po, Some ` ex)"
    by (simp add: find_shortest_path_def)
  ultimately show ?thesis using r that by blast
qed

lemma search_post_none:
  "search_post pf s (Inr (None, ex)) \<longleftrightarrow>
     ex = reachable pf s \<and> (\<forall>t. goal pf = Some t \<longrightarrow> t \<notin> reachable pf s)"
  by (simp add: search_post_def)

lemma search_post_some:
  "search_post pf s (Inr (Some path, ex)) \<longleftrightarrow>
     (\<exists>t. goal pf = Some t \<and> connects pf s t path \<and>
          (\<forall>w. connects pf s t w \<longrightarrow> length path \<le> length w) \<and>
          s \<in> ex \<and> t \<in> ex \<and> ex \<subseteq> reachable pf s)"
  by (simp add: search_post_def)

lemma shortest_path_core:
  assumes wf: "well_formed pf" and s: "start pf = Some s" and t: "goal pf = Some t"
    and w: "connects pf s t w"
  shows "\<exists>path explored. find_shortest_path pf = Inr (Some (map Some path), explored) \<and>
           connects pf s t path \<and> (\<forall>w'. connects pf s t w' \<longrightarrow> length path \<le> length w')"
proof -
  from search_from_start [OF wf s] obtain po ex where
    post: "search_post pf s (Inr (po, ex))" and
    r: "find_shortest_path pf = Inr (map_option (map Some) po, Some ` ex)"
    by blast
  show ?thesis
  proof (cases po)
    case None
    with post t have "t \<notin> reachable pf s" by (simp add: search_post_none)
    with w show ?thesis by (auto simp: reachable_def)
  next
    case (Some path)
    with post t have "connects pf s t path" "\<forall>w'. connects pf s t w' \<longrightarrow> length path \<le> length w'"
      by (auto simp: search_post_some)
    with r Some show ?thesis by auto
  qed
qed

lemma init_markers:
  assumes r: "rectangular g" and ms: "has_marker g CHR ''S''" and mg: "has_marker g CHR ''G''"
  shows "\<exists>pf s t. init g = Inr pf \<and> start pf = Some s \<and> goal pf = Some t"
proof -
  from init_rectangular [OF r] obtain pf where i: "init g = Inr pf" by blast
  from init_start [OF i r] ms obtain s where "start pf = Some s" by blast
  moreover from init_goal [OF i r] mg obtain t where "goal pf = Some t" by blast
  ultimately show ?thesis using i by blast
qed

subsection \<open>The positions of a sequence of steps\<close>

lemma orth_step_one_coordinate:
  "orth_step p q \<longleftrightarrow>
     (fst p = fst q \<and> \<bar>snd p - snd q\<bar> = 1) \<or> (snd p = snd q \<and> \<bar>fst p - fst q\<bar> = 1)"
  by (auto simp: orth_step_def)

lemma steps_ok_nth:
  "steps_ok pf w \<Longrightarrow> Suc i < length w \<Longrightarrow>
     orth_step (w ! i) (w ! Suc i) \<and> passable pf (w ! Suc i)"
proof (induction pf w arbitrary: i rule: steps_ok.induct)
  case (1 pf)
  then show ?case by simp
next
  case (2 pf p)
  then show ?case by simp
next
  case (3 pf p q w)
  show ?case
  proof (cases i)
    case 0
    with "3.prems" show ?thesis by simp
  next
    case (Suc j)
    with "3.prems" have "steps_ok pf (q # w)" "Suc j < length (q # w)" by simp_all
    from "3.IH" [OF this] Suc show ?thesis by simp
  qed
qed

lemma connects_members:
  assumes "connects pf s t w" "p \<in> set w"
  shows "p = s \<or> passable pf p"
proof -
  from assms(2) obtain k where k: "k < length w" "w ! k = p"
    by (auto simp: in_set_conv_nth)
  show ?thesis
  proof (cases k)
    case 0
    with k assms(1) show ?thesis
      by (cases w) (auto simp: connects_def)
  next
    case (Suc i)
    with k assms(1) steps_ok_nth [of pf w i] show ?thesis
      by (auto simp: connects_def)
  qed
qed

subsection \<open>The grid \<^verbatim>\<open>["S1", "1G"]\<close>\<close>

definition walled :: pathfinder where
  "walled = \<lparr>grid = [''S1'', ''1G''], rows = 2, cols = 2, start = Some (0, 0), goal = Some (1, 1)\<rparr>"

lemma walled_no_step: "orth_step (0, 0) q \<Longrightarrow> \<not> passable walled q"
  by (auto simp: orth_step_cases passable_def in_box_def cell_at_def walled_def)

lemma walled_stays:
  "connects walled (0, 0) p w \<Longrightarrow> p = (0, 0)"
proof (induction w arbitrary: p rule: rev_induct)
  case Nil
  then show ?case by (simp add: connects_def)
next
  case (snoc x w')
  from connects_cases [OF snoc.prems]
  show ?case
  proof
    assume "w' @ [x] = [(0, 0)] \<and> p = (0, 0)"
    then show ?thesis by blast
  next
    assume "\<exists>w'' q. w' @ [x] = w'' @ [p] \<and> connects walled (0, 0) q w'' \<and>
              orth_step q p \<and> passable walled p"
    then obtain q where q: "connects walled (0, 0) q w'" "orth_step q p" "passable walled p"
      by auto
    from snoc.IH [OF q(1)] q(2) have "orth_step (0, 0) p" by simp
    from walled_no_step [OF this] q(3) show ?thesis by blast
  qed
qed

lemma walled_reachable: "reachable walled (0, 0) = {(0, 0)}"
  using walled_stays connects_single [of walled "(0, 0)"]
  by (auto simp: reachable_def)

subsection \<open>The order in which positions are finalized\<close>

text \<open>
  The position of the entry that \<^verbatim>\<open>heappop\<close> returns, and the list of the positions for
  which \<^verbatim>\<open>explored.add(current_pos)\<close> runs, in the order of the run of the loop from a
  given state. The source keeps no such list; it is read off the run.
\<close>

definition popped :: "entry list \<Rightarrow> pos" where
  "popped pq = fst (snd (fst (heappop pq)))"

function finalized ::
  "pathfinder \<Rightarrow> entry list \<Rightarrow> (pos \<rightharpoonup> int) \<Rightarrow> pos set \<Rightarrow> pos list" where
  "finalized pf pq distances explored =
     (if pq = [] then []
      else (if popped pq \<in> explored then [] else [popped pq]) @
           (case loop_body pf pq distances explored of
              Return r \<Rightarrow> []
            | Continue pq' distances' explored' \<Rightarrow> finalized pf pq' distances' explored'))"
  by pat_completeness auto
termination
proof (relation "measures [\<lambda>(pf, pq, distances, explored). card (pending pf pq explored),
                          \<lambda>(pf, pq, distances, explored). length pq]")
  show "wf (measures [\<lambda>(pf, pq, distances, explored). card (pending pf pq explored),
                          \<lambda>(pf, pq, distances, explored). length pq])"
    by simp
next
  fix pf pq distances explored pq' distances' explored'
  assume "loop_body pf pq distances explored = Continue pq' distances' explored'"
  from loop_body_decreases [OF this]
  show "((pf, pq', distances', explored'), (pf, pq, distances, explored))
        \<in> measures [\<lambda>(pf, pq, distances, explored). card (pending pf pq explored),
                     \<lambda>(pf, pq, distances, explored). length pq]"
    by auto
qed

declare finalized.simps [simp del]

lemma loop_body_continue_explored:
  assumes "loop_body pf pq distances explored = Continue pq' distances' explored'"
  shows "pq \<noteq> [] \<and> explored' = insert (popped pq) explored"
proof -
  from assms have ne: "pq \<noteq> []"
    by (auto simp: loop_body_def split: if_splits)
  obtain d p path where m: "min_list pq = (d, p, path)"
    by (cases "min_list pq") auto
  then have pp: "popped pq = p" by (simp add: popped_def heappop_def)
  from assms ne m have "explored' = insert p explored"
    by (auto simp: loop_body_def heappop_def split: if_splits sum.splits prod.splits)
  with ne pp show ?thesis by simp
qed

lemma loop_body_return_explored:
  assumes "loop_body pf pq distances explored = Return (Inr (po, explored'))"
  shows "(pq = [] \<and> po = None \<and> explored' = explored) \<or>
         (pq \<noteq> [] \<and> popped pq \<notin> explored \<and> goal pf = Some (popped pq) \<and>
          explored' = insert (popped pq) explored \<and> po \<noteq> None)"
proof (cases "pq = []")
  case True
  with assms show ?thesis by (simp add: loop_body_def)
next
  case False
  obtain d p path where m: "min_list pq = (d, p, path)"
    by (cases "min_list pq") auto
  then have pp: "popped pq = p" by (simp add: popped_def heappop_def)
  from assms False m have "p \<notin> explored \<and> goal pf = Some p \<and> explored' = insert p explored \<and> po \<noteq> None"
    by (auto simp: loop_body_def heappop_def split: if_splits sum.splits prod.splits)
  with False pp show ?thesis by simp
qed

lemma finalized_empty: "finalized pf [] distances explored = []"
  by (subst finalized.simps) simp

lemma finalized_return:
  "pq \<noteq> [] \<Longrightarrow> loop_body pf pq distances explored = Return r \<Longrightarrow>
     finalized pf pq distances explored = (if popped pq \<in> explored then [] else [popped pq])"
  by (subst finalized.simps) simp

lemma finalized_continue:
  "pq \<noteq> [] \<Longrightarrow> loop_body pf pq distances explored = Continue pq' distances' explored' \<Longrightarrow>
     finalized pf pq distances explored =
       (if popped pq \<in> explored then [] else [popped pq]) @ finalized pf pq' distances' explored'"
  by (subst finalized.simps) simp

lemma finalized_fresh:
  "distinct (finalized pf pq distances explored) \<and>
   set (finalized pf pq distances explored) \<inter> explored = {}"
proof (induction pf pq distances explored rule: finalized.induct)
  case (1 pf pq distances explored)
  show ?case
  proof (cases "pq = []")
    case True
    then show ?thesis by (simp add: finalized_empty)
  next
    case False
    show ?thesis
    proof (cases "loop_body pf pq distances explored")
      case (Return r)
      with False show ?thesis
        by (simp add: finalized_return)
    next
      case (Continue pq' distances' explored')
      from loop_body_continue_explored [OF Continue]
      have e: "explored' = insert (popped pq) explored" by simp
      from "1.IH" [OF False Continue] e
      have "distinct (finalized pf pq' distances' explored')"
        "set (finalized pf pq' distances' explored') \<inter> insert (popped pq) explored = {}"
        by simp_all
      then show ?thesis
        by (auto simp: finalized_continue [OF False Continue])
    qed
  qed
qed

lemma finalized_explored:
  "search_loop pf pq distances explored = Inr (po, explored') \<Longrightarrow>
     explored' = explored \<union> set (finalized pf pq distances explored)"
proof (induction pf pq distances explored rule: search_loop.induct)
  case (1 pf pq distances explored)
  show ?case
  proof (cases "loop_body pf pq distances explored")
    case (Return r)
    with "1.prems" have r: "r = Inr (po, explored')"
      by (subst (asm) search_loop.simps) simp
    from loop_body_return_explored [OF Return [unfolded r]]
    show ?thesis
    proof
      assume "pq = [] \<and> po = None \<and> explored' = explored"
      then show ?thesis by (simp add: finalized_empty)
    next
      assume a: "pq \<noteq> [] \<and> popped pq \<notin> explored \<and> goal pf = Some (popped pq) \<and>
          explored' = insert (popped pq) explored \<and> po \<noteq> None"
      then have "pq \<noteq> []" by blast
      from finalized_return [OF this Return] a show ?thesis by simp
    qed
  next
    case (Continue pq' distances' explored'')
    with "1.prems" have "search_loop pf pq' distances' explored'' = Inr (po, explored')"
      by (subst (asm) search_loop.simps) simp
    from "1.IH" [OF Continue this]
    have ih: "explored' = explored'' \<union> set (finalized pf pq' distances' explored'')" .
    from loop_body_continue_explored [OF Continue]
    have ne: "pq \<noteq> []" and e: "explored'' = insert (popped pq) explored" by simp_all
    from ih e show ?thesis
      by (auto simp: finalized_continue [OF ne Continue])
  qed
qed

lemma found_goal_explored:
  "search_loop pf pq distances explored = Inr (Some path, explored') \<Longrightarrow>
     \<exists>t. goal pf = Some t \<and> t \<in> explored'"
proof (induction pf pq distances explored rule: search_loop.induct)
  case (1 pf pq distances explored)
  show ?case
  proof (cases "loop_body pf pq distances explored")
    case (Return r)
    with "1.prems" have r: "r = Inr (Some path, explored')"
      by (subst (asm) search_loop.simps) simp
    from loop_body_return_explored [OF Return [unfolded r]]
    show ?thesis by auto
  next
    case (Continue pq' distances' explored'')
    with "1.prems" have "search_loop pf pq' distances' explored'' = Inr (Some path, explored')"
      by (subst (asm) search_loop.simps) simp
    from "1.IH" [OF Continue this] show ?thesis .
  qed
qed

lemma finalized_first: "s \<in> set (finalized pf [(0, s, [s])] [s \<mapsto> 0] {})"
  by (subst finalized.simps) (simp add: popped_def heappop_single)

subsection \<open>Counting the passes of the loop\<close>

text \<open>
  The loop cut off after \<open>n\<close> passes through its body: \<open>None\<close> when it has not returned
  by then. And the states the loop goes through from the initial one.
\<close>

fun run_for ::
  "nat \<Rightarrow> pathfinder \<Rightarrow> entry list \<Rightarrow> (pos \<rightharpoonup> int) \<Rightarrow> pos set \<Rightarrow>
     (py_error + (pos list option \<times> pos set)) option" where
  "run_for 0 pf pq distances explored = None"
| "run_for (Suc n) pf pq distances explored =
     (case loop_body pf pq distances explored of
        Return r \<Rightarrow> Some r
      | Continue pq' distances' explored' \<Rightarrow> run_for n pf pq' distances' explored')"

inductive loop_state ::
  "pathfinder \<Rightarrow> pos \<Rightarrow> entry list \<Rightarrow> (pos \<rightharpoonup> int) \<Rightarrow> pos set \<Rightarrow> bool"
  for pf :: pathfinder and s :: pos where
  initial: "loop_state pf s [(0, s, [s])] [s \<mapsto> 0] {}"
| pass: "loop_state pf s pq distances explored \<Longrightarrow>
         loop_body pf pq distances explored = Continue pq' distances' explored' \<Longrightarrow>
         loop_state pf s pq' distances' explored'"

lemma loop_body_continue_cases:
  assumes "loop_body pf pq distances explored = Continue pq' distances' explored'"
  obtains (stale) d p path where
      "pq \<noteq> []" "min_list pq = (d, p, path)" "p \<in> explored"
      "pq' = remove1 (d, p, path) pq" "distances' = distances" "explored' = explored"
  | (expand) d p path ns where
      "pq \<noteq> []" "min_list pq = (d, p, path)" "p \<notin> explored" "get_neighbors pf p = Inr ns"
      "pq' = fst (relax d path ns (remove1 (d, p, path) pq, distances))"
      "distances' = snd (relax d path ns (remove1 (d, p, path) pq, distances))"
      "explored' = insert p explored"
proof -
  from assms have ne: "pq \<noteq> []"
    by (auto simp: loop_body_def split: if_splits)
  obtain d p path where m: "min_list pq = (d, p, path)"
    by (cases "min_list pq") auto
  show ?thesis
  proof (cases "p \<in> explored")
    case True
    from assms loop_body_stale [OF ne m True, of pf distances]
    have "pq' = remove1 (d, p, path) pq" "distances' = distances" "explored' = explored"
      by simp_all
    with ne m True show ?thesis by (rule stale)
  next
    case False
    from assms ne m False have ng: "Some p \<noteq> goal pf"
      by (auto simp: loop_body_def heappop_def)
    from assms ne m False ng obtain ns where ns: "get_neighbors pf p = Inr ns"
      by (cases "get_neighbors pf p") (auto simp: loop_body_def heappop_def)
    from assms loop_body_expand [OF ne m False ng ns, of distances]
    have "pq' = fst (relax d path ns (remove1 (d, p, path) pq, distances))"
      "distances' = snd (relax d path ns (remove1 (d, p, path) pq, distances))"
      "explored' = insert p explored"
      by simp_all
    with ne m False ns show ?thesis by (rule expand)
  qed
qed

lemma neighbors_loop_length:
  "neighbors_loop pf row col ds acc = Inr ns \<Longrightarrow> length ns \<le> length acc + length ds"
proof (induction ds arbitrary: acc)
  case Nil
  then show ?case by simp
next
  case (Cons d ds)
  obtain dr dc where d: "d = (dr, dc)" by (cases d)
  from Cons.prems d
  have "neighbors_loop pf row col ds acc = Inr ns \<or>
        neighbors_loop pf row col ds (acc @ [(row + dr, col + dc)]) = Inr ns"
    by (auto simp: Let_def split: if_splits sum.splits)
  then show ?case
  proof
    assume "neighbors_loop pf row col ds acc = Inr ns"
    from Cons.IH [OF this] show ?thesis by simp
  next
    assume "neighbors_loop pf row col ds (acc @ [(row + dr, col + dc)]) = Inr ns"
    from Cons.IH [OF this] show ?thesis by simp
  qed
qed

lemma get_neighbors_length: "get_neighbors pf p = Inr ns \<Longrightarrow> length ns \<le> 4"
  using neighbors_loop_length [of pf "fst p" "snd p" directions "[]" ns]
  by (simp add: get_neighbors_def directions_def)

lemma relax_one_length: "length (fst (relax_one d path st q)) \<le> Suc (length (fst st))"
  by (simp add: relax_one_def heappush_def Let_def)

lemma relax_length: "length (fst (relax d path ns st)) \<le> length (fst st) + length ns"
proof (induction ns arbitrary: st)
  case Nil
  then show ?case by simp
next
  case (Cons q ns)
  from Cons.IH [of "relax_one d path st q"] relax_one_length [of d path st q]
  show ?case by simp
qed

text \<open>Five times the number of pending positions plus the length of the queue goes down.\<close>

definition potential :: "pathfinder \<Rightarrow> entry list \<Rightarrow> pos set \<Rightarrow> nat" where
  "potential pf pq explored = 5 * card (pending pf pq explored) + length pq"

lemma loop_body_potential:
  assumes "loop_body pf pq distances explored = Continue pq' distances' explored'"
  shows "potential pf pq' explored' < potential pf pq explored"
  using assms
proof (cases rule: loop_body_continue_cases)
  case (stale d p path)
  have mem: "(d, p, path) \<in> set pq"
    using min_list_mem [OF stale(1)] stale(2) by simp
  have "pending pf pq' explored' \<subseteq> pending pf pq explored"
    using stale(4,6) set_remove1_subset [of "(d, p, path)" pq]
    by (auto simp: pending_def)
  then have "card (pending pf pq' explored') \<le> card (pending pf pq explored)"
    by (rule card_mono [OF finite_pending])
  moreover have "length pq' < length pq"
    using stale(1,4) mem by (simp add: length_remove1)
  ultimately show ?thesis by (simp add: potential_def)
next
  case (expand d p path ns)
  have mem: "(d, p, path) \<in> set pq"
    using min_list_mem [OF expand(1)] expand(2) by simp
  let ?st0 = "(remove1 (d, p, path) pq, distances)"
  have "(\<lambda>e. fst (snd e)) ` set pq' \<subseteq> set ns \<union> (\<lambda>e. fst (snd e)) ` set (remove1 (d, p, path) pq)"
    using relax_positions [of d path ns ?st0] expand(5) by simp
  then have sub: "(\<lambda>e. fst (snd e)) ` set pq' \<subseteq> {q. in_box pf q} \<union> (\<lambda>e. fst (snd e)) ` set pq"
    using get_neighbors_in_box [OF expand(4)]
      image_mono [OF set_remove1_subset [of "(d, p, path)" pq], of "\<lambda>e. fst (snd e)"]
    by blast
  have "pending pf pq' explored' \<subseteq> pending pf pq explored - {p}"
    using sub expand(7) by (auto simp: pending_def)
  moreover have "p \<in> pending pf pq explored"
    using mem expand(3) by (force simp: pending_def)
  ultimately have "pending pf pq' explored' \<subset> pending pf pq explored"
    by auto
  then have c: "card (pending pf pq' explored') < card (pending pf pq explored)"
    by (rule psubset_card_mono [OF finite_pending])
  have "length pq' \<le> length (remove1 (d, p, path) pq) + length ns"
    using relax_length [of d path ns ?st0] expand(5) by simp
  moreover from mem have "0 < length pq" by (cases pq) auto
  ultimately have "length pq' \<le> length pq + 3"
    using get_neighbors_length [OF expand(4)] mem by (simp add: length_remove1)
  with c show ?thesis by (simp add: potential_def)
qed

lemma run_for_enough:
  "potential pf pq explored < n \<Longrightarrow>
     run_for n pf pq distances explored = Some (search_loop pf pq distances explored)"
proof (induction pf pq distances explored arbitrary: n rule: search_loop.induct)
  case (1 pf pq distances explored)
  from "1.prems" obtain m where n: "n = Suc m" by (cases n) auto
  show ?case
  proof (cases "loop_body pf pq distances explored")
    case (Return r)
    then show ?thesis
      by (subst search_loop.simps) (simp add: n)
  next
    case (Continue pq' distances' explored')
    from loop_body_potential [OF Continue] "1.prems" n
    have "potential pf pq' explored' < m" by simp
    from "1.IH" [OF Continue this] Continue show ?thesis
      by (subst search_loop.simps) (simp add: n)
  qed
qed

lemma card_in_box: "card {p. in_box pf p} = nat (rows pf) * nat (cols pf)"
proof -
  have "{p. in_box pf p} = {0..<rows pf} \<times> {0..<cols pf}"
    by (auto simp: in_box_def)
  then show ?thesis by (simp add: card_cartesian_product)
qed

lemma potential_initial:
  "potential pf [(0, s, [s])] {} \<le> 5 * (nat (rows pf) * nat (cols pf)) + 6"
proof -
  have "pending pf [(0, s, [s])] {} \<subseteq> insert s {p. in_box pf p}"
    by (auto simp: pending_def)
  then have "card (pending pf [(0, s, [s])] {}) \<le> card (insert s {p. in_box pf p})"
    by (rule card_mono [rotated]) (simp add: finite_in_box)
  also have "\<dots> \<le> Suc (card {p. in_box pf p})"
    by (rule card_insert_le_m1) simp_all
  finally show ?thesis
    by (simp add: potential_def card_in_box)
qed

lemma relax_one_push:
  assumes "fst (relax_one d path st q) \<noteq> fst st"
  shows "fst (relax_one d path st q) = fst st @ [(d + 1, q, path @ [q])] \<and>
         snd (relax_one d path st q) q = Some (d + 1) \<and>
         (case snd st q of None \<Rightarrow> True | Some old \<Rightarrow> d + 1 < old)"
  using assms by (auto simp: relax_one_def heappush_def Let_def split: if_splits)

lemma loop_state_nonnegative:
  assumes "loop_state pf s pq distances explored"
  shows "(\<forall>e \<in> set pq. 0 \<le> fst e) \<and> (\<forall>p v. distances p = Some v \<longrightarrow> 0 \<le> v)"
  using assms
proof (induction rule: loop_state.induct)
  case initial
  then show ?case by (auto split: if_splits)
next
  case (pass pq distances explored pq' distances' explored')
  from pass.hyps(2) show ?case
  proof (cases rule: loop_body_continue_cases)
    case (stale d p path)
    with pass.IH set_remove1_subset [of "(d, p, path)" pq] show ?thesis by auto
  next
    case (expand d p path ns)
    let ?st0 = "(remove1 (d, p, path) pq, distances)"
    have mem: "(d, p, path) \<in> set pq"
      using min_list_mem [OF expand(1)] expand(2) by simp
    with pass.IH have d0: "0 \<le> d" by fastforce
    have q: "0 \<le> fst e" if "e \<in> set pq'" for e
    proof -
      from that expand(5) have "e \<in> set (fst (relax d path ns ?st0))" by simp
      from relax_new_entries [OF this] show ?thesis
      proof
        assume "e \<in> set (fst ?st0)"
        with set_remove1_subset [of "(d, p, path)" pq] pass.IH show ?thesis by auto
      next
        assume "\<exists>q \<in> set ns. e = (d + 1, q, path @ [q])"
        with d0 show ?thesis by auto
      qed
    qed
    have v: "0 \<le> v" if "distances' x = Some v" for x v
    proof -
      from pass.IH have old: "\<And>y u. distances y = Some u \<Longrightarrow> 0 \<le> u" by blast
      from relax_changed [of d path ns ?st0 x]
      show ?thesis
      proof
        assume "snd (relax d path ns ?st0) x = snd ?st0 x"
        with expand(6) that have "distances x = Some v" by simp
        then show ?thesis by (rule old)
      next
        assume "x \<in> set ns \<and> snd (relax d path ns ?st0) x = Some (d + 1) \<and>
          (d + 1, x, path @ [x]) \<in> set (fst (relax d path ns ?st0))"
        with expand(6) that have "v = d + 1" by simp
        with d0 show ?thesis by simp
      qed
    qed
    from q v show ?thesis by blast
  qed
qed

subsection \<open>Grids without blocked cells\<close>

definition manhattan :: "pos \<Rightarrow> pos \<Rightarrow> int" where
  "manhattan p q = \<bar>fst p - fst q\<bar> + \<bar>snd p - snd q\<bar>"

text \<open>The neighbour of \<open>t\<close> that is one step nearer to \<open>s\<close>, rows first.\<close>

definition toward :: "pos \<Rightarrow> pos \<Rightarrow> pos" where
  "toward s t =
     (if fst s < fst t then (fst t - 1, snd t)
      else if fst t < fst s then (fst t + 1, snd t)
      else if snd s < snd t then (fst t, snd t - 1)
      else (fst t, snd t + 1))"

lemma manhattan_step: "orth_step p q \<Longrightarrow> manhattan s q \<le> manhattan s p + 1"
  by (auto simp: manhattan_def orth_step_def)

lemma manhattan_same: "manhattan s t = 0 \<longleftrightarrow> s = t"
  by (cases s; cases t) (auto simp: manhattan_def)

lemma toward_nearer:
  assumes "s \<noteq> t"
  shows "manhattan s (toward s t) = manhattan s t - 1" "orth_step (toward s t) t"
  using assms by (cases s; cases t; auto simp: manhattan_def toward_def orth_step_def)+

lemma toward_in_box: "in_box pf s \<Longrightarrow> in_box pf t \<Longrightarrow> s \<noteq> t \<Longrightarrow> in_box pf (toward s t)"
  by (cases s; cases t) (auto simp: toward_def in_box_def)

lemma connects_lower_bound: "connects pf s t w \<Longrightarrow> manhattan s t \<le> int (length w) - 1"
proof (induction w arbitrary: t rule: rev_induct)
  case Nil
  then show ?case by (simp add: connects_def)
next
  case (snoc x w')
  from connects_cases [OF snoc.prems]
  show ?case
  proof
    assume "w' @ [x] = [s] \<and> t = s"
    then have "t = s" "length (w' @ [x]) = 1" by simp_all
    then show ?thesis using manhattan_same [of s s] by simp
  next
    assume "\<exists>w'' p. w' @ [x] = w'' @ [t] \<and> connects pf s p w'' \<and> orth_step p t \<and> passable pf t"
    then obtain p where p: "connects pf s p w'" "orth_step p t" by auto
    from snoc.IH [OF p(1)] manhattan_step [OF p(2), of s] show ?thesis by simp
  qed
qed

lemma open_grid_walk:
  assumes free: "\<And>p. in_box pf p \<Longrightarrow> cell_at pf p \<noteq> CHR ''1''" and s: "in_box pf s"
  shows "in_box pf t \<Longrightarrow> nat (manhattan s t) = n \<Longrightarrow>
           \<exists>w. connects pf s t w \<and> int (length w) - 1 = manhattan s t"
proof (induction n arbitrary: t)
  case 0
  have "0 \<le> manhattan s t" by (simp add: manhattan_def)
  with 0 have "manhattan s t = 0" by simp
  then have "t = s" by (simp add: manhattan_same)
  with connects_single [of pf s] \<open>manhattan s t = 0\<close> show ?case by fastforce
next
  case (Suc n)
  then have ne: "s \<noteq> t" using manhattan_same [of s t] by auto
  note near = toward_nearer [OF ne]
  have box: "in_box pf (toward s t)"
    by (rule toward_in_box [OF s Suc.prems(1) ne])
  from near(1) Suc.prems(2) have "nat (manhattan s (toward s t)) = n" by simp
  from Suc.IH [OF box this] obtain w where
    w: "connects pf s (toward s t) w" "int (length w) - 1 = manhattan s (toward s t)"
    by blast
  have "passable pf t"
    using Suc.prems(1) free by (simp add: passable_def)
  from connects_snoc [OF w(1) near(2) this] w(2) near(1)
  have "connects pf s t (w @ [t]) \<and> int (length (w @ [t])) - 1 = manhattan s t"
    by simp
  then show ?case by blast
qed

subsection \<open>The layout of the queue cannot be observed\<close>

lemma min_list_mset:
  fixes pq pq' :: "entry list"
  assumes "mset pq = mset pq'" "pq \<noteq> []"
  shows "min_list pq = min_list pq'"
proof -
  from assms have "set pq = set pq'" "pq' \<noteq> []"
    by (auto dest: mset_eq_setD)
  with assms(2) show ?thesis by (simp add: min_list_Min)
qed

lemma relax_one_mset:
  assumes "mset (fst st) = mset (fst st')" "snd st = snd st'"
  shows "mset (fst (relax_one d path st q)) = mset (fst (relax_one d path st' q)) \<and>
         snd (relax_one d path st q) = snd (relax_one d path st' q)"
  using assms by (simp add: relax_one_def heappush_def Let_def)

lemma relax_mset:
  assumes "mset (fst st) = mset (fst st')" "snd st = snd st'"
  shows "mset (fst (relax d path ns st)) = mset (fst (relax d path ns st')) \<and>
         snd (relax d path ns st) = snd (relax d path ns st')"
  using assms
proof (induction ns arbitrary: st st')
  case Nil
  then show ?case by simp
next
  case (Cons q ns)
  from relax_one_mset [OF Cons.prems, of d path q]
  have "mset (fst (relax_one d path st q)) = mset (fst (relax_one d path st' q))"
    "snd (relax_one d path st q) = snd (relax_one d path st' q)"
    by simp_all
  from Cons.IH [OF this] show ?case by simp
qed

lemma loop_body_mset:
  assumes m: "mset pq = mset pq'"
  shows "(\<exists>r. loop_body pf pq distances explored = Return r \<and>
              loop_body pf pq' distances explored = Return r) \<or>
         (\<exists>pq1 pq1' distances1 explored1.
            loop_body pf pq distances explored = Continue pq1 distances1 explored1 \<and>
            loop_body pf pq' distances explored = Continue pq1' distances1 explored1 \<and>
            mset pq1 = mset pq1')"
proof (cases "pq = []")
  case True
  with m have "pq' = []" by simp
  with True show ?thesis by (simp add: loop_body_empty)
next
  case False
  with m have ne': "pq' \<noteq> []" by auto
  obtain d p path where mn: "min_list pq = (d, p, path)"
    by (cases "min_list pq") auto
  with min_list_mset [OF m False] have mn': "min_list pq' = (d, p, path)" by simp
  have rest: "mset (remove1 (d, p, path) pq) = mset (remove1 (d, p, path) pq')"
    using m by simp
  show ?thesis
  proof (cases "p \<in> explored")
    case True
    from loop_body_stale [OF False mn True, of pf distances]
      loop_body_stale [OF ne' mn' True, of pf distances] rest
    show ?thesis by simp
  next
    case unexplored: False
    show ?thesis
    proof (cases "Some p = goal pf")
      case True
      from loop_body_goal [OF False mn unexplored True, of distances]
        loop_body_goal [OF ne' mn' unexplored True, of distances]
      show ?thesis by simp
    next
      case notgoal: False
      show ?thesis
      proof (cases "get_neighbors pf p")
        case (Inl e)
        from loop_body_raise [OF False mn unexplored notgoal Inl, of distances]
          loop_body_raise [OF ne' mn' unexplored notgoal Inl, of distances]
        show ?thesis by simp
      next
        case (Inr ns)
        have "mset (fst (relax d path ns (remove1 (d, p, path) pq, distances))) =
              mset (fst (relax d path ns (remove1 (d, p, path) pq', distances))) \<and>
              snd (relax d path ns (remove1 (d, p, path) pq, distances)) =
              snd (relax d path ns (remove1 (d, p, path) pq', distances))"
        proof (rule relax_mset)
          show "mset (fst (remove1 (d, p, path) pq, distances)) =
                mset (fst (remove1 (d, p, path) pq', distances))"
            using m by simp
          show "snd (remove1 (d, p, path) pq, distances) = snd (remove1 (d, p, path) pq', distances)"
            by simp
        qed
        with loop_body_expand [OF False mn unexplored notgoal Inr, of distances]
          loop_body_expand [OF ne' mn' unexplored notgoal Inr, of distances]
        show ?thesis by simp
      qed
    qed
  qed
qed

lemma search_loop_mset:
  "mset pq = mset pq' \<Longrightarrow>
     search_loop pf pq distances explored = search_loop pf pq' distances explored"
proof (induction pf pq distances explored arbitrary: pq' rule: search_loop.induct)
  case (1 pf pq distances explored)
  from loop_body_mset [OF "1.prems", of pf distances explored]
  show ?case
  proof
    assume "\<exists>r. loop_body pf pq distances explored = Return r \<and>
              loop_body pf pq' distances explored = Return r"
    then obtain r where
      a: "loop_body pf pq distances explored = Return r" and
      b: "loop_body pf pq' distances explored = Return r"
      by blast
    have "search_loop pf pq distances explored = r"
      by (subst search_loop.simps) (simp add: a)
    moreover have "search_loop pf pq' distances explored = r"
      by (subst search_loop.simps) (simp add: b)
    ultimately show ?thesis by simp
  next
    assume "\<exists>pq1 pq1' distances1 explored1.
            loop_body pf pq distances explored = Continue pq1 distances1 explored1 \<and>
            loop_body pf pq' distances explored = Continue pq1' distances1 explored1 \<and>
            mset pq1 = mset pq1'"
    then obtain pq1 pq1' distances1 explored1 where
      a: "loop_body pf pq distances explored = Continue pq1 distances1 explored1" and
      b: "loop_body pf pq' distances explored = Continue pq1' distances1 explored1" and
      c: "mset pq1 = mset pq1'"
      by blast
    have l: "search_loop pf pq distances explored = search_loop pf pq1 distances1 explored1"
      by (subst search_loop.simps) (simp add: a)
    have r: "search_loop pf pq' distances explored = search_loop pf pq1' distances1 explored1"
      by (subst search_loop.simps) (simp add: b)
    from "1.IH" [OF a c] l r show ?thesis by simp
  qed
qed

lemma entry_order_linear:
  fixes a b :: entry
  shows "(a \<le> b \<or> b \<le> a) \<and> (a \<le> b \<and> b \<le> a \<longrightarrow> a = b)"
  by auto

subsection \<open>A missing marker\<close>

lemma missing_start_raises:
  "start pf = None \<Longrightarrow> goal pf \<noteq> None \<Longrightarrow> find_shortest_path pf = Inl TypeError"
  by (simp add: find_shortest_path_def)

lemma missing_both_returns_none_path:
  "start pf = None \<Longrightarrow> goal pf = None \<Longrightarrow>
     find_shortest_path pf = Inr (Some [None], {None})"
  by (simp add: find_shortest_path_def)

lemma missing_goal_explores:
  assumes wf: "well_formed pf" and s: "start pf = Some s" and g: "goal pf = None"
  shows "find_shortest_path pf = Inr (None, Some ` reachable pf s)"
proof -
  from search_from_start [OF wf s] obtain po ex where
    post: "search_post pf s (Inr (po, ex))" and
    r: "find_shortest_path pf = Inr (map_option (map Some) po, Some ` ex)"
    by blast
  show ?thesis
  proof (cases po)
    case None
    with post have "ex = reachable pf s" by (simp add: search_post_none)
    with r None show ?thesis by simp
  next
    case (Some path)
    with post g show ?thesis by (simp add: search_post_some)
  qed
qed

lemma start_reachable: "s \<in> reachable pf s"
  using connects_single [of pf s] by (auto simp: reachable_def)

section \<open>Objects in a store\<close>

text \<open>
  Python lists and sets are mutable objects that are reached through references. To speak
  about what a call leaves unchanged, the objects are placed in a store: a list of objects,
  an address being an index into it. A new object is put at the end of the store. Integers,
  tuples, characters and \<^verbatim>\<open>None\<close> are immutable and stay values.
\<close>

type_synonym addr = nat

datatype pyobj =
    Chars "char list"
  | Refs "addr list"
  | PosList "cell list"
  | PosSet "cell list"
  | Instance addr int int cell cell

text \<open>
  \<open>Chars\<close> is a list of characters (a row of the grid), \<open>Refs\<close> a list of lists, \<open>PosList\<close> a
  list of positions, \<open>PosSet\<close> a set of positions with its elements in the order in which
  iteration yields them, and \<open>Instance g r c s t\<close> a \<^verbatim>\<open>GridPathfinder\<close> with the attributes
  \<^verbatim>\<open>grid\<close> (a reference), \<^verbatim>\<open>rows\<close>, \<^verbatim>\<open>cols\<close>, \<^verbatim>\<open>start\<close> and \<^verbatim>\<open>goal\<close>.
\<close>

type_synonym heap = "pyobj list"

definition lookup :: "heap \<Rightarrow> addr \<Rightarrow> pyobj option" where
  "lookup h a = (if a < length h then Some (h ! a) else None)"

definition alloc :: "pyobj \<Rightarrow> heap \<Rightarrow> addr \<times> heap" where
  "alloc v h = (length h, h @ [v])"

text \<open>The rows that a list of references leads to.\<close>

fun rows_at :: "heap \<Rightarrow> addr list \<Rightarrow> char list list option" where
  "rows_at h [] = Some []"
| "rows_at h (a # as) =
     (case lookup h a of
        Some (Chars row) \<Rightarrow> map_option ((#) row) (rows_at h as)
      | _ \<Rightarrow> None)"

text \<open>The pathfinder that an address stands for: its attributes, with the grid read off the store.\<close>

definition load :: "heap \<Rightarrow> addr \<Rightarrow> pathfinder option" where
  "load h self =
     (case lookup h self of
        Some (Instance g r c s t) \<Rightarrow>
          (case lookup h g of
             Some (Refs rs) \<Rightarrow>
               map_option (\<lambda>rws. \<lparr>grid = rws, rows = r, cols = c, start = s, goal = t\<rparr>)
                 (rows_at h rs)
           | _ \<Rightarrow> None)
      | _ \<Rightarrow> None)"

subsection \<open>\<^verbatim>\<open>__init__\<close> and \<^verbatim>\<open>find_shortest_path\<close> on the store\<close>

text \<open>
  \<^verbatim>\<open>[list(row) for row in grid]\<close> creates one list per row and then the list of them;
  the instance holds a reference to the latter.
\<close>

definition new_pathfinder :: "string list \<Rightarrow> heap \<Rightarrow> (py_error + addr) \<times> heap" where
  "new_pathfinder g h =
     (let h1 = h @ map Chars g;
          h2 = h1 @ [Refs [length h ..< length h + length g]]
      in case init g of
           Inl e \<Rightarrow> (Inl e, h2)
         | Inr pf \<Rightarrow>
             (Inr (Suc (length h1)),
              h2 @ [Instance (length h1) (rows pf) (cols pf) (start pf) (goal pf)]))"

text \<open>
  \<^verbatim>\<open>find_shortest_path\<close> reads the attributes of \<^verbatim>\<open>self\<close> and the cells of its grid. It assigns
  to no attribute and to no element of the grid; \<^verbatim>\<open>pq\<close>, \<^verbatim>\<open>distances\<close>, \<^verbatim>\<open>explored\<close> and the
  paths are created by the call and are the state of \<^const>\<open>search_loop\<close>.
\<close>

definition find_shortest_path_on ::
    "addr \<Rightarrow> heap \<Rightarrow> (py_error + (cell list option \<times> cell set)) \<times> heap" where
  "find_shortest_path_on self h =
     (case load h self of
        None \<Rightarrow> (Inl TypeError, h)
      | Some pf \<Rightarrow> (find_shortest_path pf, h))"

subsection \<open>\<^verbatim>\<open>visualize_path\<close>\<close>

text \<open>\<^verbatim>\<open>[row[:] for row in self.grid]\<close>: every row is copied to a new list.\<close>

fun copy_rows :: "addr list \<Rightarrow> heap \<Rightarrow> (py_error + addr list) \<times> heap" where
  "copy_rows [] h = (Inr [], h)"
| "copy_rows (a # as) h =
     (case lookup h a of
        Some (Chars row) \<Rightarrow>
          (case alloc (Chars row) h of
             (v, h1) \<Rightarrow>
               (case copy_rows as h1 of
                  (Inl e, h2) \<Rightarrow> (Inl e, h2)
                | (Inr vs, h2) \<Rightarrow> (Inr (v # vs), h2)))
      | _ \<Rightarrow> (Inl TypeError, h))"

text \<open>The index that \<^verbatim>\<open>xs[i] = v\<close> assigns to.\<close>

definition py_position :: "'a list \<Rightarrow> int \<Rightarrow> py_error + nat" where
  "py_position xs i =
     (if 0 \<le> i \<and> i < int (length xs) then Inr (nat i)
      else if i < 0 \<and> - int (length xs) \<le> i then Inr (nat (int (length xs) + i))
      else Inl IndexError)"

text \<open>
  \<^verbatim>\<open>if vis_grid[r][c] not in ['S', 'G']: vis_grid[r][c] = ch\<close>, where \<open>vis\<close> holds the references
  to the rows of \<^verbatim>\<open>vis_grid\<close>.
\<close>

definition mark :: "char \<Rightarrow> addr list \<Rightarrow> pos \<Rightarrow> heap \<Rightarrow> (py_error + unit) \<times> heap" where
  "mark ch vis p h =
     (case py_index vis (fst p) of
        Inl e \<Rightarrow> (Inl e, h)
      | Inr a \<Rightarrow>
          (case lookup h a of
             Some (Chars row) \<Rightarrow>
               (case py_position row (snd p) of
                  Inl e \<Rightarrow> (Inl e, h)
                | Inr j \<Rightarrow>
                    if row ! j = CHR ''S'' \<or> row ! j = CHR ''G'' then (Inr (), h)
                    else (Inr (), h[a := Chars (row[j := ch])]))
           | _ \<Rightarrow> (Inl TypeError, h)))"

text \<open>\<^verbatim>\<open>(r, c) not in path\<close>, the path being read from the store; \<^verbatim>\<open>None\<close> has no members to test.\<close>

definition not_in_path :: "addr option \<Rightarrow> pos \<Rightarrow> heap \<Rightarrow> py_error + bool" where
  "not_in_path path p h =
     (case path of
        None \<Rightarrow> Inl TypeError
      | Some a \<Rightarrow>
          (case lookup h a of
             Some (PosList ps) \<Rightarrow> Inr (Some p \<notin> set ps)
           | Some (PosSet ps) \<Rightarrow> Inr (Some p \<notin> set ps)
           | _ \<Rightarrow> Inl TypeError))"

text \<open>The loop \<^verbatim>\<open>for r, c in explored\<close>; an element \<^verbatim>\<open>None\<close> cannot be unpacked.\<close>

fun mark_explored ::
    "addr list \<Rightarrow> addr option \<Rightarrow> cell list \<Rightarrow> heap \<Rightarrow> (py_error + unit) \<times> heap" where
  "mark_explored vis path [] h = (Inr (), h)"
| "mark_explored vis path (None # es) h = (Inl TypeError, h)"
| "mark_explored vis path (Some p # es) h =
     (case not_in_path path p h of
        Inl e \<Rightarrow> (Inl e, h)
      | Inr False \<Rightarrow> mark_explored vis path es h
      | Inr True \<Rightarrow>
          (case mark CHR ''.'' vis p h of
             (Inl e, h1) \<Rightarrow> (Inl e, h1)
           | (Inr u, h1) \<Rightarrow> mark_explored vis path es h1))"

text \<open>The loop \<^verbatim>\<open>for r, c in path\<close>.\<close>

fun mark_path :: "addr list \<Rightarrow> cell list \<Rightarrow> heap \<Rightarrow> (py_error + unit) \<times> heap" where
  "mark_path vis [] h = (Inr (), h)"
| "mark_path vis (None # ps) h = (Inl TypeError, h)"
| "mark_path vis (Some p # ps) h =
     (case mark CHR ''*'' vis p h of
        (Inl e, h1) \<Rightarrow> (Inl e, h1)
      | (Inr u, h1) \<Rightarrow> mark_path vis ps h1)"

text \<open>The elements that iterating over an argument yields.\<close>

definition elements :: "heap \<Rightarrow> addr option \<Rightarrow> py_error + cell list" where
  "elements h x =
     (case x of
        None \<Rightarrow> Inl TypeError
      | Some a \<Rightarrow>
          (case lookup h a of
             Some (PosList ps) \<Rightarrow> Inr ps
           | Some (PosSet ps) \<Rightarrow> Inr ps
           | _ \<Rightarrow> Inl TypeError))"

text \<open>The lines that the last loop prints.\<close>

fun printed :: "heap \<Rightarrow> addr list \<Rightarrow> py_error + string list" where
  "printed h [] = Inr []"
| "printed h (a # as) =
     (case lookup h a of
        Some (Chars row) \<Rightarrow>
          (case printed h as of Inl e \<Rightarrow> Inl e | Inr ls \<Rightarrow> Inr (row # ls))
      | _ \<Rightarrow> Inl TypeError)"

definition visualize_path ::
    "addr \<Rightarrow> addr option \<Rightarrow> addr option \<Rightarrow> heap \<Rightarrow> (py_error + string list) \<times> heap" where
  "visualize_path self path explored h =
     (case lookup h self of
        Some (Instance g r c s t) \<Rightarrow>
          (case lookup h g of
             Some (Refs rs) \<Rightarrow>
               (case copy_rows rs h of
                  (Inl e, h1) \<Rightarrow> (Inl e, h1)
                | (Inr vis, h1) \<Rightarrow>
                    (case elements h1 explored of
                       Inl e \<Rightarrow> (Inl e, h1)
                     | Inr es \<Rightarrow>
                         (case mark_explored vis path es h1 of
                            (Inl e, h2) \<Rightarrow> (Inl e, h2)
                          | (Inr u, h2) \<Rightarrow>
                              (case elements h2 path of
                                 Inl e \<Rightarrow> (Inl e, h2)
                               | Inr ps \<Rightarrow>
                                   (case mark_path vis ps h2 of
                                      (Inl e, h3) \<Rightarrow> (Inl e, h3)
                                    | (Inr u, h3) \<Rightarrow> (printed h3 vis, h3))))))
           | _ \<Rightarrow> (Inl TypeError, h))
      | _ \<Rightarrow> (Inl TypeError, h))"

subsection \<open>What a call leaves in the store\<close>

lemma lookup_prefix:
  assumes "take (length h) h' = h" and "a < length h"
  shows "lookup h' a = lookup h a"
proof -
  from assms(1) have "length (take (length h) h') = length h" by simp
  then have le: "length h \<le> length h'" by simp
  from nth_take [OF assms(2), of h'] have "take (length h) h' ! a = h' ! a" .
  then have "h' ! a = h ! a" unfolding assms(1) by simp
  with le assms(2) show ?thesis by (simp add: lookup_def)
qed

lemma lookup_Some: "lookup h a = Some v \<Longrightarrow> a < length h"
  by (simp add: lookup_def split: if_splits)

lemma rows_at_prefix:
  assumes "take (length h) h' = h"
  shows "rows_at h rs = Some rws \<Longrightarrow> rows_at h' rs = Some rws"
proof (induction rs arbitrary: rws)
  case Nil
  then show ?case by simp
next
  case (Cons a rs)
  from Cons.prems obtain row where row: "lookup h a = Some (Chars row)"
    by (auto split: option.splits pyobj.splits)
  from lookup_prefix [OF assms lookup_Some [OF row]] row
  have row': "lookup h' a = Some (Chars row)" by simp
  from Cons.prems row obtain rest where rest: "rows_at h rs = Some rest" "rws = row # rest"
    by auto
  from Cons.IH [OF rest(1)] row' rest(2) show ?case by simp
qed

lemma load_prefix:
  assumes p: "take (length h) h' = h" and l: "load h self = Some pf"
  shows "load h' self = Some pf"
proof -
  from l obtain g r c s t where i: "lookup h self = Some (Instance g r c s t)"
    by (auto simp: load_def split: option.splits pyobj.splits)
  from l i obtain rs where rs: "lookup h g = Some (Refs rs)"
    by (auto simp: load_def split: option.splits pyobj.splits)
  from l i rs obtain rws where rws: "rows_at h rs = Some rws"
    "pf = \<lparr>grid = rws, rows = r, cols = c, start = s, goal = t\<rparr>"
    by (auto simp: load_def)
  from lookup_prefix [OF p lookup_Some [OF i]] i
  have i': "lookup h' self = Some (Instance g r c s t)" by simp
  from lookup_prefix [OF p lookup_Some [OF rs]] rs
  have rs': "lookup h' g = Some (Refs rs)" by simp
  from rows_at_prefix [OF p rws(1)] i' rs' rws(2) show ?thesis
    by (simp add: load_def)
qed

lemma copy_rows_appends:
  "\<exists>ys. snd (copy_rows rs h) = h @ ys"
proof (induction rs arbitrary: h)
  case Nil
  then show ?case by simp
next
  case (Cons a rs)
  show ?case
  proof (cases "\<exists>row. lookup h a = Some (Chars row)")
    case True
    then obtain row where row: "lookup h a = Some (Chars row)" by blast
    from Cons.IH [of "h @ [Chars row]"] obtain ys where
      ys: "snd (copy_rows rs (h @ [Chars row])) = h @ [Chars row] @ ys" by auto
    with row have "snd (copy_rows (a # rs) h) = h @ ([Chars row] @ ys)"
      by (auto simp: alloc_def split: prod.splits sum.splits)
    then show ?thesis by blast
  next
    case False
    then have "snd (copy_rows (a # rs) h) = h @ []"
      by (auto split: option.splits pyobj.splits)
    then show ?thesis by blast
  qed
qed

lemma copy_rows_fresh:
  "copy_rows rs h = (Inr vs, h') \<Longrightarrow> v \<in> set vs \<Longrightarrow> length h \<le> v"
proof (induction rs arbitrary: h vs)
  case Nil
  then show ?case by simp
next
  case (Cons a rs)
  from Cons.prems(1) obtain row where row: "lookup h a = Some (Chars row)"
    by (auto split: option.splits pyobj.splits)
  from Cons.prems(1) row obtain ws where
    ws: "copy_rows rs (h @ [Chars row]) = (Inr ws, h')" "vs = length h # ws"
    by (auto simp: alloc_def split: prod.splits sum.splits)
  show ?case
  proof (cases "v = length h")
    case True
    then show ?thesis by simp
  next
    case False
    with Cons.prems(2) ws(2) have "v \<in> set ws" by simp
    from Cons.IH [OF ws(1) this] show ?thesis by simp
  qed
qed

lemma py_index_member: "py_index xs i = Inr a \<Longrightarrow> a \<in> set xs"
  by (auto simp: py_index_def split: if_splits)

lemma mark_frame:
  assumes "\<And>v. v \<in> set vis \<Longrightarrow> n \<le> v"
  shows "take n (snd (mark ch vis p h)) = take n h"
proof (cases "py_index vis (fst p)")
  case (Inl e)
  then show ?thesis by (simp add: mark_def)
next
  case (Inr a)
  from assms [OF py_index_member [OF Inr]] have "n \<le> a" .
  then have "take n (h[a := x]) = take n h" for x by simp
  with Inr show ?thesis
    by (simp add: mark_def split: option.splits pyobj.splits sum.splits)
qed

lemma mark_explored_frame:
  assumes "\<And>v. v \<in> set vis \<Longrightarrow> n \<le> v"
  shows "take n (snd (mark_explored vis path es h)) = take n h"
proof (induction es arbitrary: h)
  case Nil
  then show ?case by simp
next
  case (Cons e es)
  show ?case
  proof (cases e)
    case None
    then show ?thesis by simp
  next
    case (Some p)
    from mark_frame [of vis n "CHR ''.''" p h, OF assms]
    have m: "take n (snd (mark CHR ''.'' vis p h)) = take n h" .
    show ?thesis
    proof (cases "mark CHR ''.'' vis p h")
      case (Pair r h1)
      with m have h1: "take n h1 = take n h" by simp
      from Cons.IH [of h1] h1
      have "take n (snd (mark_explored vis path es h1)) = take n h" by simp
      with Some Pair Cons.IH [of h] h1 show ?thesis
        by (simp split: sum.splits bool.splits)
    qed
  qed
qed

lemma mark_path_frame:
  assumes "\<And>v. v \<in> set vis \<Longrightarrow> n \<le> v"
  shows "take n (snd (mark_path vis ps h)) = take n h"
proof (induction ps arbitrary: h)
  case Nil
  then show ?case by simp
next
  case (Cons e ps)
  show ?case
  proof (cases e)
    case None
    then show ?thesis by simp
  next
    case (Some p)
    from mark_frame [of vis n "CHR ''*''" p h, OF assms]
    have m: "take n (snd (mark CHR ''*'' vis p h)) = take n h" .
    show ?thesis
    proof (cases "mark CHR ''*'' vis p h")
      case (Pair r h1)
      with m have h1: "take n h1 = take n h" by simp
      from Cons.IH [of h1] h1
      have "take n (snd (mark_path vis ps h1)) = take n h" by simp
      with Some Pair h1 show ?thesis
        by (simp split: sum.splits)
    qed
  qed
qed

lemma visualize_path_frame:
  "take (length h) (snd (visualize_path self path explored h)) = h"
proof (cases "\<exists>g r c s t rs. lookup h self = Some (Instance g r c s t) \<and>
                 lookup h g = Some (Refs rs)")
  case False
  then have "snd (visualize_path self path explored h) = h"
    by (auto simp: visualize_path_def split: option.splits pyobj.splits)
  then show ?thesis by simp
next
  case True
  then obtain g r c s t rs where
    i: "lookup h self = Some (Instance g r c s t)" and rs: "lookup h g = Some (Refs rs)"
    by blast
  obtain res h1 where c: "copy_rows rs h = (res, h1)" by (cases "copy_rows rs h")
  from copy_rows_appends [of rs h] c have h1: "take (length h) h1 = h" by auto
  show ?thesis
  proof (cases res)
    case (Inl e)
    with i rs c h1 show ?thesis by (simp add: visualize_path_def)
  next
    case (Inr vis)
    with c have c': "copy_rows rs h = (Inr vis, h1)" by simp
    have fresh: "length h \<le> v" if "v \<in> set vis" for v
      using copy_rows_fresh [OF c' that] .
    show ?thesis
    proof (cases "elements h1 explored")
      case (Inl e)
      with i rs c' h1 show ?thesis by (simp add: visualize_path_def)
    next
      case es: (Inr es)
      obtain r2 h2 where m: "mark_explored vis path es h1 = (r2, h2)"
        by (cases "mark_explored vis path es h1")
      from mark_explored_frame [of vis "length h" path es h1, OF fresh] m h1
      have h2: "take (length h) h2 = h" by simp
      show ?thesis
      proof (cases r2)
        case (Inl e)
        with i rs c' es m h2 show ?thesis by (simp add: visualize_path_def)
      next
        case u: (Inr u)
        show ?thesis
        proof (cases "elements h2 path")
          case (Inl e)
          with i rs c' es m u h2 show ?thesis by (simp add: visualize_path_def)
        next
          case ps: (Inr ps)
          obtain r3 h3 where m3: "mark_path vis ps h2 = (r3, h3)"
            by (cases "mark_path vis ps h2")
          from mark_path_frame [of vis "length h" ps h2, OF fresh] m3 h2
          have h3: "take (length h) h3 = h" by simp
          with i rs c' es m u ps m3 show ?thesis
            by (simp add: visualize_path_def split: sum.splits)
        qed
      qed
    qed
  qed
qed

lemma load_new_pathfinder:
  assumes "init g = Inr pf"
  shows "\<exists>self h'. new_pathfinder g h = (Inr self, h') \<and> load h' self = Some pf"
proof -
  let ?h1 = "h @ map Chars g"
  let ?refs = "[length h ..< length h + length g]"
  let ?h2 = "?h1 @ [Refs ?refs]"
  let ?h3 = "?h2 @ [Instance (length ?h1) (rows pf) (cols pf) (start pf) (goal pf)]"
  have r: "rows_at (h0 @ map Chars rs @ tl) [length h0 ..< length h0 + length rs] = Some rs"
    for h0 rs and tl :: heap
  proof (induction rs arbitrary: h0)
    case Nil
    then show ?case by simp
  next
    case (Cons row rs)
    have e: "[length h0 ..< length h0 + length (row # rs)] =
               length h0 # [Suc (length h0) ..< Suc (length h0) + length rs]"
      by (subst upt_rec) (simp del: upt_Suc)
    have l: "lookup (h0 @ map Chars (row # rs) @ tl) (length h0) = Some (Chars row)"
      by (simp add: lookup_def)
    from Cons.IH [of "h0 @ [Chars row]"]
    have ih: "rows_at (h0 @ map Chars (row # rs) @ tl)
                [Suc (length h0) ..< Suc (length h0) + length rs] = Some rs"
      by simp
    show ?case unfolding e using l ih by (simp del: upt_Suc)
  qed
  from r [of h g "[Refs ?refs, Instance (length ?h1) (rows pf) (cols pf) (start pf) (goal pf)]"]
  have rows: "rows_at ?h3 ?refs = Some g" by simp
  have a: "lookup ?h3 (Suc (length ?h1)) =
             Some (Instance (length ?h1) (rows pf) (cols pf) (start pf) (goal pf))"
    by (simp add: lookup_def nth_append)
  have b: "lookup ?h3 (length ?h1) = Some (Refs ?refs)"
    by (simp add: lookup_def nth_append)
  from init_fields(1) [OF assms] have "grid pf = g" .
  with a b rows have "load ?h3 (Suc (length ?h1)) = Some pf"
    by (simp add: load_def)
  with assms show ?thesis by (simp add: new_pathfinder_def Let_def)
qed

section \<open>The search over any heap\<close>

text \<open>
  Which entry \<^verbatim>\<open>heappop\<close> returns when several have the same distance, and how the heap
  arranges its items, is the business of \<^verbatim>\<open>heapq\<close>. Here the two operations are taken as
  relations that say no more than the library promises: \<^verbatim>\<open>heappop(pq)\<close> returns an item of
  \<open>pq\<close> that is smallest, that is, below or equal to every item, and leaves the other items
  in some arrangement; \<^verbatim>\<open>heappush(pq, x)\<close> leaves the items of \<open>pq\<close> and \<open>x\<close> in some
  arrangement.
\<close>

definition pops :: "entry list \<Rightarrow> entry \<Rightarrow> entry list \<Rightarrow> bool" where
  "pops pq m pq' =
     (m \<in> set pq \<and> (\<forall>x \<in> set pq. m \<le> x) \<and> mset pq' = mset pq - {#m#})"

definition pushes :: "entry list \<Rightarrow> entry \<Rightarrow> entry list \<Rightarrow> bool" where
  "pushes pq x pq' = (mset pq' = add_mset x (mset pq))"

text \<open>
  The loop \<^verbatim>\<open>for next_pos in self.get_neighbors(current_pos)\<close> with such a heap:
  \<open>relaxes current_dist current_path ns pq distances pq' distances'\<close> holds when the loop
  over the neighbours \<open>ns\<close> can lead from \<open>pq\<close>, \<open>distances\<close> to \<open>pq'\<close>, \<open>distances'\<close>.
\<close>

inductive relaxes ::
  "int \<Rightarrow> pos list \<Rightarrow> pos list \<Rightarrow> entry list \<Rightarrow> (pos \<rightharpoonup> int) \<Rightarrow>
   entry list \<Rightarrow> (pos \<rightharpoonup> int) \<Rightarrow> bool" where
  relaxes_done:
    "relaxes current_dist current_path [] pq distances pq distances"
| relaxes_keep:
    "\<not> (case distances next_pos of None \<Rightarrow> True | Some d \<Rightarrow> current_dist + 1 < d) \<Longrightarrow>
     relaxes current_dist current_path ns pq distances pq' distances' \<Longrightarrow>
     relaxes current_dist current_path (next_pos # ns) pq distances pq' distances'"
| relaxes_push:
    "(case distances next_pos of None \<Rightarrow> True | Some d \<Rightarrow> current_dist + 1 < d) \<Longrightarrow>
     pushes pq (current_dist + 1, next_pos, current_path @ [next_pos]) pq1 \<Longrightarrow>
     relaxes current_dist current_path ns pq1 (distances(next_pos \<mapsto> current_dist + 1))
       pq' distances' \<Longrightarrow>
     relaxes current_dist current_path (next_pos # ns) pq distances pq' distances'"

text \<open>
  The loop \<^verbatim>\<open>while pq:\<close> with such a heap: \<open>search_run pf pq distances explored r\<close> holds
  when the loop, entered in the given state, can end with \<open>r\<close>. The rules are the ways through
  the body: the queue is empty; the popped position is already explored; it is the goal;
  \<^verbatim>\<open>get_neighbors\<close> raises; the neighbours are relaxed.
\<close>

inductive search_run ::
  "pathfinder \<Rightarrow> entry list \<Rightarrow> (pos \<rightharpoonup> int) \<Rightarrow> pos set \<Rightarrow>
   py_error + (pos list option \<times> pos set) \<Rightarrow> bool" where
  run_empty:
    "search_run pf [] distances explored (Inr (None, explored))"
| run_stale:
    "pq \<noteq> [] \<Longrightarrow> pops pq (current_dist, current_pos, current_path) pq1 \<Longrightarrow>
     current_pos \<in> explored \<Longrightarrow>
     search_run pf pq1 distances explored r \<Longrightarrow>
     search_run pf pq distances explored r"
| run_goal:
    "pq \<noteq> [] \<Longrightarrow> pops pq (current_dist, current_pos, current_path) pq1 \<Longrightarrow>
     current_pos \<notin> explored \<Longrightarrow> Some current_pos = goal pf \<Longrightarrow>
     search_run pf pq distances explored
       (Inr (Some current_path, insert current_pos explored))"
| run_raise:
    "pq \<noteq> [] \<Longrightarrow> pops pq (current_dist, current_pos, current_path) pq1 \<Longrightarrow>
     current_pos \<notin> explored \<Longrightarrow> Some current_pos \<noteq> goal pf \<Longrightarrow>
     get_neighbors pf current_pos = Inl e \<Longrightarrow>
     search_run pf pq distances explored (Inl e)"
| run_expand:
    "pq \<noteq> [] \<Longrightarrow> pops pq (current_dist, current_pos, current_path) pq1 \<Longrightarrow>
     current_pos \<notin> explored \<Longrightarrow> Some current_pos \<noteq> goal pf \<Longrightarrow>
     get_neighbors pf current_pos = Inr ns \<Longrightarrow>
     relaxes current_dist current_path ns pq1 distances pq2 distances2 \<Longrightarrow>
     search_run pf pq2 distances2 (insert current_pos explored) r \<Longrightarrow>
     search_run pf pq distances explored r"

text \<open>
  \<^verbatim>\<open>find_shortest_path\<close> with such a heap. With no start the one entry of the queue is
  popped, whatever the heap, and the call returns or raises as in \<^const>\<open>find_shortest_path\<close>.
\<close>

inductive find_shortest_path_run ::
  "pathfinder \<Rightarrow> py_error + (cell list option \<times> cell set) \<Rightarrow> bool" where
  run_no_start_no_goal:
    "start pf = None \<Longrightarrow> goal pf = None \<Longrightarrow>
     find_shortest_path_run pf (Inr (Some [None], {None}))"
| run_no_start:
    "start pf = None \<Longrightarrow> goal pf \<noteq> None \<Longrightarrow>
     find_shortest_path_run pf (Inl TypeError)"
| run_raises:
    "start pf = Some s \<Longrightarrow> search_run pf [(0, s, [s])] [s \<mapsto> 0] {} (Inl e) \<Longrightarrow>
     find_shortest_path_run pf (Inl e)"
| run_returns:
    "start pf = Some s \<Longrightarrow>
     search_run pf [(0, s, [s])] [s \<mapsto> 0] {} (Inr (path, explored)) \<Longrightarrow>
     find_shortest_path_run pf (Inr (map_option (map Some) path, Some ` explored))"

subsection \<open>Every run of the loop ends with the same result\<close>

lemma pops_smallest:
  assumes "pops pq m pq'"
  shows "pq \<noteq> []" "m = min_list pq" "mset pq' = mset (remove1 (min_list pq) pq)"
proof -
  from assms have m: "m \<in> set pq" and le: "\<forall>x \<in> set pq. m \<le> x"
    and r: "mset pq' = mset pq - {#m#}"
    by (simp_all add: pops_def)
  from m show ne: "pq \<noteq> []" by auto
  from m le have "Min (set pq) = m" by (intro Min_eqI) auto
  with ne show e: "m = min_list pq" by (simp add: min_list_Min)
  from r e show "mset pq' = mset (remove1 (min_list pq) pq)" by simp
qed

lemma pops_min_list:
  fixes pq :: "entry list"
  assumes "pq \<noteq> []"
  shows "pops pq (min_list pq) (remove1 (min_list pq) pq)"
proof -
  from assms have "min_list pq = Min (set pq)" by (simp add: min_list_Min)
  with assms show ?thesis by (simp add: pops_def)
qed

lemma relaxes_relax:
  assumes "relaxes d path ns pq distances pq' distances'" "mset pq = mset qa"
  shows "mset pq' = mset (fst (relax d path ns (qa, distances))) \<and>
         distances' = snd (relax d path ns (qa, distances))"
  using assms
proof (induction arbitrary: qa rule: relaxes.induct)
  case (relaxes_done current_dist current_path pq distances)
  then show ?case by simp
next
  case (relaxes_keep distances next_pos current_dist current_path ns pq pq' distances')
  from relaxes_keep.hyps(1)
  have "relax_one current_dist current_path (qa, distances) next_pos = (qa, distances)"
    by (simp add: relax_one_def Let_def)
  with relaxes_keep.IH [OF relaxes_keep.prems] show ?case by simp
next
  case (relaxes_push distances next_pos current_dist pq current_path pq1 ns pq' distances')
  let ?x = "(current_dist + 1, next_pos, current_path @ [next_pos])"
  from relaxes_push.hyps(1)
  have o: "relax_one current_dist current_path (qa, distances) next_pos =
        (qa @ [?x], distances(next_pos \<mapsto> current_dist + 1))"
    by (simp add: relax_one_def heappush_def Let_def)
  from relaxes_push.hyps(2) relaxes_push.prems have "mset pq1 = mset (qa @ [?x])"
    by (simp add: pushes_def)
  from relaxes_push.IH [OF this] o show ?case by (simp add: fun_upd_def)
qed

lemma relaxes_of_relax:
  "relaxes d path ns pq distances
     (fst (relax d path ns (pq, distances))) (snd (relax d path ns (pq, distances)))"
proof (induction ns arbitrary: pq distances)
  case Nil
  show ?case by (simp add: relaxes_done)
next
  case (Cons n ns)
  show ?case
  proof (cases "case distances n of None \<Rightarrow> True | Some x \<Rightarrow> d + 1 < x")
    case True
    then have o: "relax_one d path (pq, distances) n =
        (pq @ [(d + 1, n, path @ [n])], distances(n \<mapsto> d + 1))"
      by (simp add: relax_one_def heappush_def Let_def)
    have push: "pushes pq (d + 1, n, path @ [n]) (pq @ [(d + 1, n, path @ [n])])"
      by (simp add: pushes_def)
    have ih: "relaxes d path ns (pq @ [(d + 1, n, path @ [n])]) (distances(n \<mapsto> d + 1))
        (fst (relax d path ns (pq @ [(d + 1, n, path @ [n])], distances(n \<mapsto> d + 1))))
        (snd (relax d path ns (pq @ [(d + 1, n, path @ [n])], distances(n \<mapsto> d + 1))))"
      by (rule Cons.IH)
    from True push ih
    have "relaxes d path (n # ns) pq distances
        (fst (relax d path ns (pq @ [(d + 1, n, path @ [n])], distances(n \<mapsto> d + 1))))
        (snd (relax d path ns (pq @ [(d + 1, n, path @ [n])], distances(n \<mapsto> d + 1))))"
      by (rule relaxes_push)
    then show ?thesis by (simp only: relax.simps o)
  next
    case False
    then have o: "relax_one d path (pq, distances) n = (pq, distances)"
      by (simp add: relax_one_def Let_def)
    have ih: "relaxes d path ns pq distances
        (fst (relax d path ns (pq, distances))) (snd (relax d path ns (pq, distances)))"
      by (rule Cons.IH)
    from False ih
    have "relaxes d path (n # ns) pq distances
        (fst (relax d path ns (pq, distances))) (snd (relax d path ns (pq, distances)))"
      by (rule relaxes_keep)
    then show ?thesis by (simp only: relax.simps o)
  qed
qed

lemma search_run_result:
  assumes "search_run pf pq distances explored r" "mset pq = mset qa"
  shows "r = search_loop pf qa distances explored"
  using assms
proof (induction arbitrary: qa rule: search_run.induct)
  case (run_empty pf distances explored)
  then have "qa = []" by simp
  then show ?case by (subst search_loop.simps) (simp add: loop_body_empty)
next
  case (run_stale pq current_dist current_pos current_path pq1 explored pf distances r)
  note p = pops_smallest [OF run_stale.hyps(2)]
  from p(2) have m: "min_list pq = (current_dist, current_pos, current_path)" by simp
  from p(3) m have "mset pq1 = mset (remove1 (current_dist, current_pos, current_path) pq)"
    by simp
  from run_stale.IH [OF this]
  have "r = search_loop pf (remove1 (current_dist, current_pos, current_path) pq)
              distances explored" .
  also have "\<dots> = search_loop pf pq distances explored"
    by (subst (2) search_loop.simps)
      (simp add: loop_body_stale [OF run_stale.hyps(1) m run_stale.hyps(3)])
  also from search_loop_mset [OF run_stale.prems]
  have "\<dots> = search_loop pf qa distances explored" .
  finally show ?case .
next
  case (run_goal pq current_dist current_pos current_path pq1 explored pf distances)
  note p = pops_smallest [OF run_goal.hyps(2)]
  from p(2) have m: "min_list pq = (current_dist, current_pos, current_path)" by simp
  have "search_loop pf pq distances explored =
          Inr (Some current_path, insert current_pos explored)"
    by (subst search_loop.simps)
      (simp add: loop_body_goal [OF run_goal.hyps(1) m run_goal.hyps(3,4)])
  with search_loop_mset [OF run_goal.prems, of pf distances explored]
  show ?case by simp
next
  case (run_raise pq current_dist current_pos current_path pq1 explored pf e distances)
  note p = pops_smallest [OF run_raise.hyps(2)]
  from p(2) have m: "min_list pq = (current_dist, current_pos, current_path)" by simp
  have "search_loop pf pq distances explored = Inl e"
    by (subst search_loop.simps)
      (simp add: loop_body_raise [OF run_raise.hyps(1) m run_raise.hyps(3,4,5)])
  with search_loop_mset [OF run_raise.prems, of pf distances explored]
  show ?case by simp
next
  case (run_expand pq current_dist current_pos current_path pq1 explored pf ns distances
      pq2 distances2 r)
  note p = pops_smallest [OF run_expand.hyps(2)]
  from p(2) have m: "min_list pq = (current_dist, current_pos, current_path)" by simp
  let ?q = "remove1 (current_dist, current_pos, current_path) pq"
  from p(3) m have "mset pq1 = mset ?q" by simp
  from relaxes_relax [OF run_expand.hyps(6) this]
  have q2: "mset pq2 = mset (fst (relax current_dist current_path ns (?q, distances)))"
    and d2: "distances2 = snd (relax current_dist current_path ns (?q, distances))"
    by simp_all
  from run_expand.IH [OF q2] d2
  have "r = search_loop pf (fst (relax current_dist current_path ns (?q, distances)))
              (snd (relax current_dist current_path ns (?q, distances)))
              (insert current_pos explored)"
    by simp
  also have "\<dots> = search_loop pf pq distances explored"
    by (subst (2) search_loop.simps)
      (simp add: loop_body_expand [OF run_expand.hyps(1) m run_expand.hyps(3,4,5)])
  also from search_loop_mset [OF run_expand.prems]
  have "\<dots> = search_loop pf qa distances explored" .
  finally show ?case .
qed

lemma search_run_exists:
  "search_run pf pq distances explored (search_loop pf pq distances explored)"
proof (induction pf pq distances explored rule: search_loop.induct)
  case (1 pf pq distances explored)
  show ?case
  proof (cases "pq = []")
    case True
    have "search_loop pf [] distances explored = Inr (None, explored)"
      by (subst search_loop.simps) (simp add: loop_body_empty)
    with True run_empty [of pf distances explored] show ?thesis by simp
  next
    case ne: False
    obtain d p path where m: "min_list pq = (d, p, path)" by (cases "min_list pq")
    let ?q = "remove1 (d, p, path) pq"
    from pops_min_list [OF ne] m have pop: "pops pq (d, p, path) ?q" by simp
    show ?thesis
    proof (cases "p \<in> explored")
      case True
      note b = loop_body_stale [OF ne m True, of pf distances]
      have e: "search_loop pf pq distances explored = search_loop pf ?q distances explored"
        by (subst search_loop.simps) (simp add: b)
      from run_stale [OF ne pop True "1.IH" [OF b]] e show ?thesis by simp
    next
      case unexplored: False
      show ?thesis
      proof (cases "Some p = goal pf")
        case True
        have "search_loop pf pq distances explored = Inr (Some path, insert p explored)"
          by (subst search_loop.simps) (simp add: loop_body_goal [OF ne m unexplored True])
        with run_goal [OF ne pop unexplored True, of distances] show ?thesis by simp
      next
        case other: False
        show ?thesis
        proof (cases "get_neighbors pf p")
          case (Inl e)
          have "search_loop pf pq distances explored = Inl e"
            by (subst search_loop.simps)
              (simp add: loop_body_raise [OF ne m unexplored other Inl])
          with run_raise [OF ne pop unexplored other Inl, of distances] show ?thesis by simp
        next
          case (Inr ns)
          note b = loop_body_expand [OF ne m unexplored other Inr, of distances]
          have e: "search_loop pf pq distances explored =
              search_loop pf (fst (relax d path ns (?q, distances)))
                (snd (relax d path ns (?q, distances))) (insert p explored)"
            by (subst search_loop.simps) (simp add: b)
          from run_expand [OF ne pop unexplored other Inr relaxes_of_relax "1.IH" [OF b]] e
          show ?thesis by simp
        qed
      qed
    qed
  qed
qed

lemma find_shortest_path_run_result:
  assumes "find_shortest_path_run pf r"
  shows "r = find_shortest_path pf"
  using assms
proof (cases rule: find_shortest_path_run.cases)
  case run_no_start_no_goal
  then show ?thesis by (simp add: find_shortest_path_def)
next
  case run_no_start
  then show ?thesis by (simp add: find_shortest_path_def)
next
  case (run_raises s e)
  from search_run_result [OF run_raises(3), of "[(0, s, [s])]"]
  have "search_loop pf [(0, s, [s])] [s \<mapsto> 0] {} = Inl e" by simp
  with run_raises(1,2) show ?thesis by (simp add: find_shortest_path_def)
next
  case (run_returns s path explored)
  from search_run_result [OF run_returns(3), of "[(0, s, [s])]"]
  have "search_loop pf [(0, s, [s])] [s \<mapsto> 0] {} = Inr (path, explored)" by simp
  with run_returns(1,2) show ?thesis by (simp add: find_shortest_path_def)
qed

lemma find_shortest_path_run_exists:
  "find_shortest_path_run pf (find_shortest_path pf)"
proof (cases "start pf")
  case None
  show ?thesis
  proof (cases "goal pf = None")
    case True
    from run_no_start_no_goal [OF None True] missing_both_returns_none_path [OF None True]
    show ?thesis by simp
  next
    case False
    from run_no_start [OF None False] missing_start_raises [OF None False]
    show ?thesis by simp
  qed
next
  case (Some s)
  note run = search_run_exists [of pf "[(0, s, [s])]" "[s \<mapsto> 0]" "{}"]
  show ?thesis
  proof (cases "search_loop pf [(0, s, [s])] [s \<mapsto> 0] {}")
    case (Inl e)
    with run run_raises [OF Some, of e] Some show ?thesis
      by (simp add: find_shortest_path_def)
  next
    case (Inr res)
    obtain path explored where res: "res = (path, explored)" by (cases res)
    with Inr run run_returns [OF Some, of path explored] Some show ?thesis
      by (simp add: find_shortest_path_def)
  qed
qed

subsection \<open>A heap that puts a new item in front\<close>

text \<open>
  The relations leave the arrangement open: a pushed item may go in front or to the back.
  On the grid \<^verbatim>\<open>["S0", "0G"]\<close> a heap that puts the second entry in front of the first
  leads to the same result as the one that appends it.
\<close>

lemma pushes_front_or_back: "pushes pq x (x # pq) \<and> pushes pq x (pq @ [x])"
  by (simp add: pushes_def)

lemma front_heap_run:
  "find_shortest_path_run
     \<lparr>grid = [''S0'', ''0G''], rows = 2, cols = 2, start = Some (0, 0), goal = Some (1, 1)\<rparr>
     (Inr (Some [Some (0, 0), Some (0, 1), Some (1, 1)],
           {Some (0, 0), Some (0, 1), Some (1, 0), Some (1, 1)}))"
proof -
  let ?pf = "\<lparr>grid = [''S0'', ''0G''], rows = 2, cols = 2,
              start = Some (0, 0), goal = Some (1, 1)\<rparr>"
  let ?a = "(1 :: int, (1 :: int, 0 :: int), [(0 :: int, 0 :: int), (1, 0)])"
  let ?b = "(1 :: int, (0 :: int, 1 :: int), [(0 :: int, 0 :: int), (0, 1)])"
  let ?d0 = "[(0 :: int, 0 :: int) \<mapsto> (0 :: int)]"
  let ?d1 = "?d0((1, 0) \<mapsto> 0 + 1)"
  let ?d2 = "?d1((0, 1) \<mapsto> 0 + 1)"
  have pop: "pops [(0, (0, 0), [(0, 0)])] (0, (0, 0), [(0, 0)]) []"
    by (simp add: pops_def)
  have nb: "get_neighbors ?pf (0, 0) = Inr [(1, 0), (0, 1)]" by code_simp
  have p1: "pushes [] (0 + 1, (1, 0), [(0, 0)] @ [(1, 0)]) [?a]"
    by (simp add: pushes_def)
  have p2: "pushes [?a] (0 + 1, (0, 1), [(0, 0)] @ [(0, 1)]) [?b, ?a]"
    by (simp add: pushes_def)
  have c1: "case ?d0 (1, 0) of None \<Rightarrow> True | Some d \<Rightarrow> 0 + 1 < d" by simp
  have c2: "case ?d1 (0, 1) of None \<Rightarrow> True | Some d \<Rightarrow> 0 + 1 < d" by simp
  have "relaxes 0 [(0, 0)] [] [?b, ?a] ?d2 [?b, ?a] ?d2" by (rule relaxes_done)
  with c2 p2 have "relaxes 0 [(0, 0)] [(0, 1)] [?a] ?d1 [?b, ?a] ?d2"
    by (rule relaxes_push)
  with c1 p1 have rel: "relaxes 0 [(0, 0)] [(1, 0), (0, 1)] [] ?d0 [?b, ?a] ?d2"
    by (rule relaxes_push)
  have v: "search_loop ?pf [?b, ?a] ?d2 (insert (0, 0) {}) =
      Inr (Some [(0, 0), (0, 1), (1, 1)], {(0, 0), (0, 1), (1, 0), (1, 1)})"
    by code_simp
  from search_run_exists [of ?pf "[?b, ?a]" ?d2 "insert (0, 0) {}"] v
  have rest: "search_run ?pf [?b, ?a] ?d2 (insert (0, 0) {})
      (Inr (Some [(0, 0), (0, 1), (1, 1)], {(0, 0), (0, 1), (1, 0), (1, 1)}))"
    by (simp only:)
  have "search_run ?pf [(0, (0, 0), [(0, 0)])] ?d0 {}
      (Inr (Some [(0, 0), (0, 1), (1, 1)], {(0, 0), (0, 1), (1, 0), (1, 1)}))"
  proof (rule run_expand [OF _ pop _ _ nb rel rest])
    show "[(0 :: int, (0 :: int, 0 :: int), [(0 :: int, 0 :: int)])] \<noteq> []" by simp
    show "(0 :: int, 0 :: int) \<notin> {}" by simp
    show "Some (0, 0) \<noteq> goal ?pf" by simp
  qed
  from run_returns [of ?pf "(0, 0)", OF _ this]
  show ?thesis by simp
qed

section \<open>The claims\<close>

text \<open>
  C6. If the start position equals the goal position, \<^verbatim>\<open>find_shortest_path\<close> returns the
  path made of that one position (no edge) and the explored set made of that one position.
  This also covers the only way the two can be equal after \<^verbatim>\<open>__init__\<close>: both markers
  absent, both attributes \<^verbatim>\<open>None\<close>.
\<close>

theorem start_equals_goal:
  "start pf = goal pf \<Longrightarrow> find_shortest_path pf = Inr (Some [start pf], {start pf})"
proof (cases "start pf")
  case None
  assume "start pf = goal pf"
  with None show ?thesis
    by (simp add: find_shortest_path_def)
next
  case (Some s)
  assume "start pf = goal pf"
  with Some have g: "goal pf = Some s" by simp
  have "search_loop pf [(0, s, [s])] [s \<mapsto> 0] {} = Inr (Some [s], {s})"
    by (subst search_loop.simps) (simp add: loop_body_goal_first [OF g])
  with Some show ?thesis
    by (simp add: find_shortest_path_def)
qed

theorem start_equals_goal_witness:
  "start \<lparr>grid = [''00'', ''00''], rows = 2, cols = 2, start = Some (1, 1), goal = Some (1, 1)\<rparr>
     = goal \<lparr>grid = [''00'', ''00''], rows = 2, cols = 2, start = Some (1, 1), goal = Some (1, 1)\<rparr>
   \<and> find_shortest_path
       \<lparr>grid = [''00'', ''00''], rows = 2, cols = 2, start = Some (1, 1), goal = Some (1, 1)\<rparr>
     = Inr (Some [Some (1, 1)], {Some (1, 1)})"
  using start_equals_goal
    [of "\<lparr>grid = [''00'', ''00''], rows = 2, cols = 2, start = Some (1, 1), goal = Some (1, 1)\<rparr>"]
  by simp

text \<open>
  C1. On a rectangular grid that contains an \<open>S\<close> and a \<open>G\<close>, construction succeeds with
  both positions found; if some sequence of orthogonal steps through cells that are in
  bounds and not blocked connects start to goal, \<^verbatim>\<open>find_shortest_path\<close> returns such a
  sequence from start to goal, and its number of edges (length minus one) is the least
  number of edges of any connecting sequence.
\<close>

theorem shortest_path_is_minimal:
  assumes "rectangular g" "has_marker g CHR ''S''" "has_marker g CHR ''G''"
  shows "\<exists>pf s t. init g = Inr pf \<and> start pf = Some s \<and> goal pf = Some t \<and>
           ((\<exists>w. connects pf s t w) \<longrightarrow>
            (\<exists>path explored.
               find_shortest_path pf = Inr (Some (map Some path), explored) \<and>
               connects pf s t path \<and>
               length path - 1 = (LEAST n. \<exists>w. connects pf s t w \<and> n = length w - 1)))"
proof -
  from init_markers [OF assms] obtain pf s t where
    i: "init g = Inr pf" and s: "start pf = Some s" and t: "goal pf = Some t"
    by blast
  note wf = init_well_formed [OF i assms(1)]
  have "\<exists>path explored.
          find_shortest_path pf = Inr (Some (map Some path), explored) \<and>
          connects pf s t path \<and>
          length path - 1 = (LEAST n. \<exists>w. connects pf s t w \<and> n = length w - 1)"
    if "\<exists>w. connects pf s t w"
  proof -
    from that obtain w where "connects pf s t w" by blast
    from shortest_path_core [OF wf s t this] obtain path explored where
      r: "find_shortest_path pf = Inr (Some (map Some path), explored)" and
      c: "connects pf s t path" and
      m: "\<And>w'. connects pf s t w' \<Longrightarrow> length path \<le> length w'"
      by blast
    have "(LEAST n. \<exists>w. connects pf s t w \<and> n = length w - 1) = length path - 1"
    proof (rule Least_equality)
      show "\<exists>w. connects pf s t w \<and> length path - 1 = length w - 1"
        using c by blast
    next
      fix n
      assume "\<exists>w. connects pf s t w \<and> n = length w - 1"
      then obtain w' where "connects pf s t w'" "n = length w' - 1" by blast
      with m [of w'] show "length path - 1 \<le> n" by simp
    qed
    with r c show ?thesis by auto
  qed
  with i s t show ?thesis by blast
qed

theorem shortest_path_is_minimal_witness:
  "rectangular [''S0'', ''0G''] \<and> has_marker [''S0'', ''0G''] CHR ''S'' \<and>
   has_marker [''S0'', ''0G''] CHR ''G'' \<and>
   (\<exists>pf. init [''S0'', ''0G''] = Inr pf \<and> start pf = Some (0, 0) \<and> goal pf = Some (1, 1) \<and>
      connects pf (0, 0) (1, 1) [(0, 0), (1, 0), (1, 1)] \<and>
      (\<exists>path explored.
         find_shortest_path pf = Inr (Some (map Some path), explored) \<and>
         connects pf (0, 0) (1, 1) path \<and>
         length path - 1 =
           (LEAST n. \<exists>w. connects pf (0, 0) (1, 1) w \<and> n = length w - 1)))"
proof -
  let ?g = "[''S0'', ''0G'']"
  let ?pf = "\<lparr>grid = ?g, rows = 2, cols = 2, start = Some (0, 0), goal = Some (1, 1)\<rparr>"
  have h: "rectangular ?g" "has_marker ?g CHR ''S''" "has_marker ?g CHR ''G''"
    by code_simp+
  have i: "init ?g = Inr ?pf" by code_simp
  have c: "connects ?pf (0, 0) (1, 1) [(0, 0), (1, 0), (1, 1)]" by code_simp
  from shortest_path_is_minimal [OF h] i c
  have "\<exists>path explored.
         find_shortest_path ?pf = Inr (Some (map Some path), explored) \<and>
         connects ?pf (0, 0) (1, 1) path \<and>
         length path - 1 =
           (LEAST n. \<exists>w. connects ?pf (0, 0) (1, 1) w \<and> n = length w - 1)"
    by auto
  with h i c show ?thesis by simp
qed

text \<open>
  C3. On a rectangular grid, when \<^verbatim>\<open>find_shortest_path\<close> returns a path: two
  consecutive elements are positions one orthogonal step apart (\<open>orth_step\<close>: the
  coordinates differ by one in exactly one of the two); every position of the path is
  within the bounds of the grid and does not carry the blocked marker; and if the grid has
  an \<open>S\<close>, every element of the path is a position.
\<close>

theorem returned_path_is_valid:
  assumes "rectangular g" "init g = Inr pf"
    and "find_shortest_path pf = Inr (Some path, explored)"
  shows "(\<forall>i. Suc i < length path \<longrightarrow>
            (\<exists>p q. path ! i = Some p \<and> path ! Suc i = Some q \<and> orth_step p q)) \<and>
         (\<forall>p. Some p \<in> set path \<longrightarrow> in_box pf p \<and> cell_at pf p \<noteq> CHR ''1'') \<and>
         (has_marker g CHR ''S'' \<longrightarrow> None \<notin> set path)"
proof (cases "start pf")
  case None
  with assms(3) have "path = [None]"
    by (auto simp: find_shortest_path_def split: if_splits)
  moreover from init_start [OF assms(2,1)] None have "\<not> has_marker g CHR ''S''" by auto
  ultimately show ?thesis by simp
next
  case (Some s)
  note wf = init_well_formed [OF assms(2,1)]
  from search_from_start [OF wf Some] obtain po ex where
    post: "search_post pf s (Inr (po, ex))" and
    r: "find_shortest_path pf = Inr (map_option (map Some) po, Some ` ex)"
    by blast
  from r assms(3) obtain ps where po: "po = Some ps" and path: "path = map Some ps"
    by (cases po) auto
  from post po obtain t where c: "connects pf s t ps"
    by (auto simp: search_post_some)
  from init_start [OF assms(2,1)] Some have sbox: "in_box pf s" and scell: "cell_at pf s = CHR ''S''"
    by auto
  have adj: "\<exists>p q. path ! i = Some p \<and> path ! Suc i = Some q \<and> orth_step p q"
    if "Suc i < length path" for i
  proof -
    from that path have i: "Suc i < length ps" by simp
    with c steps_ok_nth [of pf ps i] have "orth_step (ps ! i) (ps ! Suc i)"
      by (simp add: connects_def)
    with i path show ?thesis by simp
  qed
  have ok: "in_box pf p \<and> cell_at pf p \<noteq> CHR ''1''" if "Some p \<in> set path" for p
  proof -
    from that path have "p \<in> set ps" by auto
    from connects_members [OF c this] show ?thesis
    proof
      assume "p = s"
      with sbox scell show ?thesis by simp
    next
      assume "passable pf p"
      then show ?thesis by (simp add: passable_def)
    qed
  qed
  have "None \<notin> set path" using path by auto
  with adj ok show ?thesis by blast
qed

theorem returned_path_is_valid_witness:
  "rectangular [''S0'', ''0G''] \<and>
   init [''S0'', ''0G''] =
     Inr \<lparr>grid = [''S0'', ''0G''], rows = 2, cols = 2, start = Some (0, 0), goal = Some (1, 1)\<rparr> \<and>
   find_shortest_path
     \<lparr>grid = [''S0'', ''0G''], rows = 2, cols = 2, start = Some (0, 0), goal = Some (1, 1)\<rparr> =
     Inr (Some [Some (0, 0), Some (0, 1), Some (1, 1)],
          {Some (0, 0), Some (0, 1), Some (1, 0), Some (1, 1)}) \<and>
   has_marker [''S0'', ''0G''] CHR ''S'' \<and>
   orth_step (0, 0) (0, 1) \<and> orth_step (0, 1) (1, 1) \<and>
   in_box \<lparr>grid = [''S0'', ''0G''], rows = 2, cols = 2, start = Some (0, 0), goal = Some (1, 1)\<rparr>
     (0, 1) \<and>
   cell_at \<lparr>grid = [''S0'', ''0G''], rows = 2, cols = 2, start = Some (0, 0), goal = Some (1, 1)\<rparr>
     (0, 1) \<noteq> CHR ''1'' \<and>
   in_box \<lparr>grid = [''S0'', ''0G''], rows = 2, cols = 2, start = Some (0, 0), goal = Some (1, 1)\<rparr>
     (1, 1) \<and>
   cell_at \<lparr>grid = [''S0'', ''0G''], rows = 2, cols = 2, start = Some (0, 0), goal = Some (1, 1)\<rparr>
     (1, 1) \<noteq> CHR ''1'' \<and>
   None \<notin> set [Some (0, 0), Some (0, 1), Some (1 :: int, 1 :: int)]"
proof -
  let ?g = "[''S0'', ''0G'']"
  let ?pf = "\<lparr>grid = ?g, rows = 2, cols = 2, start = Some (0, 0), goal = Some (1, 1)\<rparr>"
  let ?path = "[Some (0, 0), Some (0, 1), Some (1 :: int, 1 :: int)]"
  have h1: "rectangular ?g" by code_simp
  have h2: "init ?g = Inr ?pf" by code_simp
  have h3: "find_shortest_path ?pf =
     Inr (Some ?path, {Some (0, 0), Some (0, 1), Some (1, 0), Some (1, 1)})"
    by code_simp
  have h4: "has_marker ?g CHR ''S''" by code_simp
  note v = returned_path_is_valid [OF h1 h2 h3]
  from v have a: "\<forall>i. Suc i < length ?path \<longrightarrow>
            (\<exists>p q. ?path ! i = Some p \<and> ?path ! Suc i = Some q \<and> orth_step p q)"
    by blast
  from a [rule_format, of 0] have s1: "orth_step (0, 0) (0, 1)" by simp
  from a [rule_format, of 1] have s2: "orth_step (0, 1) (1, 1)" by simp
  from v have b: "\<forall>p. Some p \<in> set ?path \<longrightarrow> in_box ?pf p \<and> cell_at ?pf p \<noteq> CHR ''1''"
    by blast
  from b [rule_format, of "(0, 1)"]
  have c1: "in_box ?pf (0, 1)" "cell_at ?pf (0, 1) \<noteq> CHR ''1''" by simp_all
  from b [rule_format, of "(1, 1)"]
  have c2: "in_box ?pf (1, 1)" "cell_at ?pf (1, 1) \<noteq> CHR ''1''" by simp_all
  from v h4 have n: "None \<notin> set ?path" by blast
  from h1 h2 h3 h4 s1 s2 c1 c2 n show ?thesis by blast
qed

text \<open>
  C4. On a rectangular grid with a start, if no sequence of orthogonal steps through cells
  that are in bounds and not blocked connects start to goal (in particular if there is no
  goal), \<^verbatim>\<open>find_shortest_path\<close> raises nothing and returns no path together with the
  explored set, which is the set of positions reachable from the start. On
  \<^verbatim>\<open>["S1", "1G"]\<close> that set is \<open>{(0, 0)}\<close>: the witness.
\<close>

theorem unreachable_goal_reports_no_path:
  assumes "rectangular g" "init g = Inr pf" "start pf = Some s"
    and "\<forall>t w. goal pf = Some t \<longrightarrow> \<not> connects pf s t w"
  shows "find_shortest_path pf = Inr (None, Some ` reachable pf s)"
proof -
  note wf = init_well_formed [OF assms(2,1)]
  from search_from_start [OF wf assms(3)] obtain po ex where
    post: "search_post pf s (Inr (po, ex))" and
    r: "find_shortest_path pf = Inr (map_option (map Some) po, Some ` ex)"
    by blast
  show ?thesis
  proof (cases po)
    case None
    with post have "ex = reachable pf s" by (simp add: search_post_none)
    with r None show ?thesis by simp
  next
    case (Some path)
    with post obtain t where "goal pf = Some t" "connects pf s t path"
      by (auto simp: search_post_some)
    with assms(4) show ?thesis by blast
  qed
qed

theorem unreachable_goal_reports_no_path_witness:
  "rectangular [''S1'', ''1G''] \<and> init [''S1'', ''1G''] = Inr walled \<and>
   start walled = Some (0, 0) \<and> goal walled = Some (1, 1) \<and>
   \<not> (\<exists>w. connects walled (0, 0) (1, 1) w) \<and>
   find_shortest_path walled = Inr (None, {Some (0, 0)})"
proof -
  have h1: "rectangular [''S1'', ''1G'']" by code_simp
  have h2: "init [''S1'', ''1G''] = Inr walled" by code_simp
  have h3: "start walled = Some (0, 0)" by (simp add: walled_def)
  have h4: "\<forall>t w. goal walled = Some t \<longrightarrow> \<not> connects walled (0, 0) t w"
  proof (intro allI impI notI)
    fix t w
    assume "goal walled = Some t" "connects walled (0, 0) t w"
    then have "t = (1, 1)" "t = (0, 0)"
      using walled_stays by (simp_all add: walled_def)
    then show False by simp
  qed
  from unreachable_goal_reports_no_path [OF h1 h2 h3 h4]
  have r: "find_shortest_path walled = Inr (None, {Some (0, 0)})"
    by (simp add: walled_reachable)
  have g: "goal walled = Some (1, 1)" by (simp add: walled_def)
  with h4 have "\<not> (\<exists>w. connects walled (0, 0) (1, 1) w)" by blast
  with h1 h2 h3 g r show ?thesis by blast
qed

text \<open>
  C8. With a start position \<open>s\<close>, whatever \<^verbatim>\<open>find_shortest_path\<close> returns: the explored
  set contains the start; when a path is returned it contains the goal; and the positions
  finalized during the run are pairwise different and are exactly the explored set, so no
  position is finalized twice.
\<close>

theorem explored_set_properties:
  assumes "start pf = Some s" "find_shortest_path pf = Inr (po, explored)"
  shows "Some s \<in> explored \<and> (po \<noteq> None \<longrightarrow> goal pf \<in> explored) \<and>
         distinct (finalized pf [(0, s, [s])] [s \<mapsto> 0] {}) \<and>
         explored = Some ` set (finalized pf [(0, s, [s])] [s \<mapsto> 0] {})"
proof -
  from assms obtain po' ex where
    r: "search_loop pf [(0, s, [s])] [s \<mapsto> 0] {} = Inr (po', ex)" and
    po: "po = map_option (map Some) po'" and ex: "explored = Some ` ex"
    by (auto simp: find_shortest_path_def split: sum.splits)
  from finalized_explored [OF r]
  have fin: "ex = set (finalized pf [(0, s, [s])] [s \<mapsto> 0] {})" by simp
  with finalized_first [of s pf] ex have "Some s \<in> explored" by blast
  moreover have "goal pf \<in> explored" if "po \<noteq> None"
  proof -
    from that po obtain path where "po' = Some path" by (cases po') auto
    with r have "search_loop pf [(0, s, [s])] [s \<mapsto> 0] {} = Inr (Some path, ex)" by simp
    from found_goal_explored [OF this] obtain t where "goal pf = Some t" "t \<in> ex" by blast
    with ex show ?thesis by simp
  qed
  moreover have "distinct (finalized pf [(0, s, [s])] [s \<mapsto> 0] {})"
    using finalized_fresh [of pf "[(0, s, [s])]" "[s \<mapsto> 0]" "{}"] by simp
  ultimately show ?thesis using fin ex by blast
qed

theorem explored_set_properties_witness:
  "start \<lparr>grid = [''S0'', ''0G''], rows = 2, cols = 2, start = Some (0, 0), goal = Some (1, 1)\<rparr>
     = Some (0, 0) \<and>
   find_shortest_path
     \<lparr>grid = [''S0'', ''0G''], rows = 2, cols = 2, start = Some (0, 0), goal = Some (1, 1)\<rparr> =
     Inr (Some [Some (0, 0), Some (0, 1), Some (1, 1)],
          {Some (0, 0), Some (0, 1), Some (1, 0), Some (1, 1)}) \<and>
   finalized \<lparr>grid = [''S0'', ''0G''], rows = 2, cols = 2, start = Some (0, 0), goal = Some (1, 1)\<rparr>
     [(0, (0, 0), [(0, 0)])] [(0, 0) \<mapsto> 0] {} = [(0, 0), (0, 1), (1, 0), (1, 1)] \<and>
   distinct
     (finalized \<lparr>grid = [''S0'', ''0G''], rows = 2, cols = 2, start = Some (0, 0), goal = Some (1, 1)\<rparr>
        [(0, (0, 0), [(0, 0)])] [(0, 0) \<mapsto> 0] {})"
proof -
  let ?pf = "\<lparr>grid = [''S0'', ''0G''], rows = 2, cols = 2, start = Some (0, 0), goal = Some (1, 1)\<rparr>"
  have h1: "start ?pf = Some (0, 0)" by simp
  have h2: "find_shortest_path ?pf =
     Inr (Some [Some (0, 0), Some (0, 1), Some (1, 1)],
          {Some (0, 0), Some (0, 1), Some (1, 0), Some (1, 1)})"
    by code_simp
  have f: "finalized ?pf [(0, (0, 0), [(0, 0)])] [(0, 0) \<mapsto> 0] {} = [(0, 0), (0, 1), (1, 0), (1, 1)]"
    by code_simp
  from explored_set_properties [OF h1 h2]
  have "distinct (finalized ?pf [(0, (0, 0), [(0, 0)])] [(0, 0) \<mapsto> 0] {})" by blast
  with h1 h2 f show ?thesis by blast
qed

text \<open>
  C5. From the initial state of \<^verbatim>\<open>find_shortest_path\<close> the loop returns after finitely many
  passes, at most \<open>5 \<sqdot> rows \<sqdot> cols + 7\<close>, for every grid and start position. A push
  happens only when it strictly lowers the pushed position's entry of the distance map (an
  absent entry counting as infinite), and in every state the loop goes through all
  distances are nonnegative.
\<close>

theorem search_terminates:
  "(\<exists>n \<le> 5 * (nat (rows pf) * nat (cols pf)) + 7.
      run_for n pf [(0, s, [s])] [s \<mapsto> 0] {} =
        Some (search_loop pf [(0, s, [s])] [s \<mapsto> 0] {})) \<and>
   (\<forall>d path st q.
      fst (relax_one d path st q) \<noteq> fst st \<longrightarrow>
        snd (relax_one d path st q) q = Some (d + 1) \<and>
        (case snd st q of None \<Rightarrow> True | Some old \<Rightarrow> d + 1 < old)) \<and>
   (\<forall>pq distances explored.
      loop_state pf s pq distances explored \<longrightarrow>
        (\<forall>p v. distances p = Some v \<longrightarrow> 0 \<le> v))"
proof -
  let ?n = "5 * (nat (rows pf) * nat (cols pf)) + 7"
  have "potential pf [(0, s, [s])] {} < ?n"
    using potential_initial [of pf s] by simp
  then have "run_for ?n pf [(0, s, [s])] [s \<mapsto> 0] {} =
        Some (search_loop pf [(0, s, [s])] [s \<mapsto> 0] {})"
    by (rule run_for_enough)
  then have a: "\<exists>n \<le> ?n. run_for n pf [(0, s, [s])] [s \<mapsto> 0] {} =
        Some (search_loop pf [(0, s, [s])] [s \<mapsto> 0] {})"
    by blast
  have b: "\<forall>d path st q.
      fst (relax_one d path st q) \<noteq> fst st \<longrightarrow>
        snd (relax_one d path st q) q = Some (d + 1) \<and>
        (case snd st q of None \<Rightarrow> True | Some old \<Rightarrow> d + 1 < old)"
    using relax_one_push by blast
  have c: "\<forall>pq distances explored.
      loop_state pf s pq distances explored \<longrightarrow>
        (\<forall>p v. distances p = Some v \<longrightarrow> 0 \<le> v)"
    using loop_state_nonnegative by blast
  from a b c show ?thesis by blast
qed

theorem search_terminates_witness:
  "(\<exists>n \<le> 27.
      run_for n \<lparr>grid = [''S0'', ''0G''], rows = 2, cols = 2, start = Some (0, 0), goal = Some (1, 1)\<rparr>
        [(0, (0, 0), [(0, 0)])] [(0, 0) \<mapsto> 0] {} =
      Some (Inr (Some [(0, 0), (0, 1), (1, 1)], {(0, 0), (0, 1), (1, 0), (1, 1)}))) \<and>
   fst (relax_one 0 [(0, 0)] ([], [(0, 0) \<mapsto> 0]) (0, 1)) \<noteq> [] \<and>
   snd (relax_one 0 [(0, 0)] ([], [(0, 0) \<mapsto> 0]) (0, 1)) (0, 1) = Some 1 \<and>
   loop_state \<lparr>grid = [''S0'', ''0G''], rows = 2, cols = 2, start = Some (0, 0), goal = Some (1, 1)\<rparr>
     (0, 0) [(0, (0, 0), [(0, 0)])] [(0, 0) \<mapsto> 0] {} \<and>
   [(0 :: int, 0 :: int) \<mapsto> 0 :: int] (0, 0) = Some 0 \<and> (0 :: int) \<le> 0"
proof -
  let ?pf = "\<lparr>grid = [''S0'', ''0G''], rows = 2, cols = 2, start = Some (0, 0), goal = Some (1, 1)\<rparr>"
  note t = search_terminates [of ?pf "(0, 0)"]
  have v: "search_loop ?pf [(0, (0, 0), [(0, 0)])] [(0, 0) \<mapsto> 0] {} =
      Inr (Some [(0, 0), (0, 1), (1, 1)], {(0, 0), (0, 1), (1, 0), (1, 1)})"
    by code_simp
  from t have "\<exists>n \<le> 5 * (nat (rows ?pf) * nat (cols ?pf)) + 7.
      run_for n ?pf [(0, (0, 0), [(0, 0)])] [(0, 0) \<mapsto> 0] {} =
        Some (search_loop ?pf [(0, (0, 0), [(0, 0)])] [(0, 0) \<mapsto> 0] {})"
    by blast
  then have a: "\<exists>n \<le> 27. run_for n ?pf [(0, (0, 0), [(0, 0)])] [(0, 0) \<mapsto> 0] {} =
      Some (Inr (Some [(0, 0), (0, 1), (1, 1)], {(0, 0), (0, 1), (1, 0), (1, 1)}))"
    by (simp add: v)
  have p: "fst (relax_one 0 [(0, 0)] ([], [(0, 0) \<mapsto> 0]) (0, 1)) \<noteq> []"
    by (simp add: relax_one_def heappush_def)
  note push = t [THEN conjunct2, THEN conjunct1, rule_format,
      of 0 "[(0, 0)]" "([], [(0, 0) \<mapsto> 0])" "(0, 1)"]
  from p have "fst (relax_one 0 [(0, 0)] ([], [(0, 0) \<mapsto> 0]) (0, 1)) \<noteq>
      fst ([] :: entry list, [(0 :: int, 0 :: int) \<mapsto> 0 :: int])"
    by simp
  from push [OF this] have b: "snd (relax_one 0 [(0, 0)] ([], [(0, 0) \<mapsto> 0]) (0, 1)) (0, 1) = Some 1"
    by simp
  have l: "loop_state ?pf (0, 0) [(0, (0, 0), [(0, 0)])] [(0, 0) \<mapsto> 0] {}"
    by (rule loop_state.initial)
  have m: "[(0 :: int, 0 :: int) \<mapsto> 0 :: int] (0, 0) = Some 0" by simp
  from t [THEN conjunct2, THEN conjunct2, rule_format, OF l m]
  have c: "(0 :: int) \<le> 0" .
  from a p b l m c show ?thesis by blast
qed

text \<open>
  C7. On a rectangular grid with no blocked cell that contains an \<open>S\<close> and a \<open>G\<close>,
  \<^verbatim>\<open>find_shortest_path\<close> returns a path whose number of edges is the Manhattan distance
  between the start and goal positions.
\<close>

theorem open_grid_manhattan:
  assumes "rectangular g" "\<not> has_marker g CHR ''1''"
    and "has_marker g CHR ''S''" "has_marker g CHR ''G''"
  shows "\<exists>pf s t path explored.
           init g = Inr pf \<and> start pf = Some s \<and> goal pf = Some t \<and>
           find_shortest_path pf = Inr (Some (map Some path), explored) \<and>
           int (length path - 1) = manhattan s t"
proof -
  from init_markers [OF assms(1,3,4)] obtain pf s t where
    i: "init g = Inr pf" and s: "start pf = Some s" and t: "goal pf = Some t"
    by blast
  note wf = init_well_formed [OF i assms(1)]
  from init_start [OF i assms(1)] s have sbox: "in_box pf s" by auto
  from init_goal [OF i assms(1)] t have tbox: "in_box pf t" by auto
  have "\<not> (\<exists>p. in_box pf p \<and> cell_at pf p = CHR ''1'')"
    using has_marker_cell [OF wf, of "CHR ''1''"] assms(2) init_fields(1) [OF i] by simp
  then have free: "cell_at pf p \<noteq> CHR ''1''" if "in_box pf p" for p
    using that by blast
  from open_grid_walk [OF free sbox tbox refl] obtain w where
    w: "connects pf s t w" "int (length w) - 1 = manhattan s t"
    by blast
  from shortest_path_core [OF wf s t w(1)] obtain path explored where
    r: "find_shortest_path pf = Inr (Some (map Some path), explored)" and
    c: "connects pf s t path" and
    m: "\<And>w'. connects pf s t w' \<Longrightarrow> length path \<le> length w'"
    by blast
  from m [OF w(1)] w(2) connects_lower_bound [OF c] connects_length [OF c]
  have "int (length path - 1) = manhattan s t" by linarith
  with i s t r show ?thesis by blast
qed

theorem open_grid_manhattan_witness:
  "rectangular [''S00'', ''00G''] \<and> \<not> has_marker [''S00'', ''00G''] CHR ''1'' \<and>
   has_marker [''S00'', ''00G''] CHR ''S'' \<and> has_marker [''S00'', ''00G''] CHR ''G'' \<and>
   (\<exists>pf path explored.
      init [''S00'', ''00G''] = Inr pf \<and> start pf = Some (0, 0) \<and> goal pf = Some (1, 2) \<and>
      find_shortest_path pf = Inr (Some (map Some path), explored) \<and>
      int (length path - 1) = 3)"
proof -
  let ?g = "[''S00'', ''00G'']"
  let ?pf = "\<lparr>grid = ?g, rows = 2, cols = 3, start = Some (0, 0), goal = Some (1, 2)\<rparr>"
  have h: "rectangular ?g" "\<not> has_marker ?g CHR ''1''" "has_marker ?g CHR ''S''"
    "has_marker ?g CHR ''G''"
    by code_simp+
  have i: "init ?g = Inr ?pf" by code_simp
  have m: "manhattan (0, 0) (1, 2) = 3" by (simp add: manhattan_def)
  from open_grid_manhattan [OF h] i m
  have "\<exists>pf path explored.
      init ?g = Inr pf \<and> start pf = Some (0, 0) \<and> goal pf = Some (1, 2) \<and>
      find_shortest_path pf = Inr (Some (map Some path), explored) \<and>
      int (length path - 1) = 3"
    by auto
  with h show ?thesis by blast
qed

text \<open>
  C2, as stated, fails: on the grid \<^verbatim>\<open>["S0"]\<close>, which has no \<open>G\<close>, the search visits both
  cells before it reports that there is no path, so the explored set is not empty.
\<close>

theorem missing_goal_counterexample:
  "\<not> has_marker [''S0''] CHR ''G'' \<and>
   init [''S0''] = Inr \<lparr>grid = [''S0''], rows = 1, cols = 2, start = Some (0, 0), goal = None\<rparr> \<and>
   find_shortest_path \<lparr>grid = [''S0''], rows = 1, cols = 2, start = Some (0, 0), goal = None\<rparr> =
     Inr (None, {Some (0, 0), Some (0, 1)}) \<and>
   {Some (0, 0), Some (0 :: int, 1 :: int)} \<noteq> {}"
proof -
  have "\<not> has_marker [''S0''] CHR ''G''" by code_simp
  moreover have "init [''S0''] =
      Inr \<lparr>grid = [''S0''], rows = 1, cols = 2, start = Some (0, 0), goal = None\<rparr>"
    by code_simp
  moreover have "find_shortest_path
      \<lparr>grid = [''S0''], rows = 1, cols = 2, start = Some (0, 0), goal = None\<rparr> =
      Inr (None, {Some (0, 0), Some (0, 1)})"
    by code_simp
  ultimately show ?thesis by simp
qed

text \<open>
  C2, amended. On a rectangular grid in which \<open>S\<close> or \<open>G\<close> is absent, construction
  succeeds and \<^verbatim>\<open>find_position\<close> returns \<^verbatim>\<open>None\<close> for an absent marker, which is then the
  value of the attribute. When the start is present (so the goal is absent),
  \<^verbatim>\<open>find_shortest_path\<close> raises nothing and returns no path together with the set of all
  positions reachable from the start, which contains the start.
\<close>

theorem missing_marker_behaviour:
  assumes "rectangular g" "\<not> has_marker g CHR ''S'' \<or> \<not> has_marker g CHR ''G''"
  shows "\<exists>pf. init g = Inr pf \<and>
           (\<not> has_marker g CHR ''S'' \<longrightarrow>
              find_position pf CHR ''S'' = Inr None \<and> start pf = None) \<and>
           (\<not> has_marker g CHR ''G'' \<longrightarrow>
              find_position pf CHR ''G'' = Inr None \<and> goal pf = None) \<and>
           (\<forall>s. start pf = Some s \<longrightarrow>
              find_shortest_path pf = Inr (None, Some ` reachable pf s) \<and>
              s \<in> reachable pf s)"
proof -
  from init_rectangular [OF assms(1)] obtain pf where i: "init g = Inr pf" by blast
  note wf = init_well_formed [OF i assms(1)]
  note st = init_start [OF i assms(1)]
  note gl = init_goal [OF i assms(1)]
  note gr = init_fields(1) [OF i]
  note hs = has_marker_cell [OF wf, of "CHR ''S''", unfolded gr]
  note hg = has_marker_cell [OF wf, of "CHR ''G''", unfolded gr]
  have a: "find_position pf CHR ''S'' = Inr None \<and> start pf = None"
    if n: "\<not> has_marker g CHR ''S''"
  proof -
    from n st have "start pf = None \<or> (\<exists>p. in_box pf p \<and> cell_at pf p = CHR ''S'')" by blast
    moreover from n hs have "\<not> (\<exists>p. in_box pf p \<and> cell_at pf p = CHR ''S'')" by blast
    ultimately have "start pf = None" by blast
    with init_fields(5) [OF i] show ?thesis by simp
  qed
  have b: "find_position pf CHR ''G'' = Inr None \<and> goal pf = None"
    if n: "\<not> has_marker g CHR ''G''"
  proof -
    from n gl have "goal pf = None \<or> (\<exists>p. in_box pf p \<and> cell_at pf p = CHR ''G'')" by blast
    moreover from n hg have "\<not> (\<exists>p. in_box pf p \<and> cell_at pf p = CHR ''G'')" by blast
    ultimately have "goal pf = None" by blast
    with init_fields(6) [OF i] show ?thesis by simp
  qed
  have c: "find_shortest_path pf = Inr (None, Some ` reachable pf s) \<and> s \<in> reachable pf s"
    if s: "start pf = Some s" for s
  proof -
    from s st have "in_box pf s \<and> cell_at pf s = CHR ''S''" by auto
    then have "\<exists>p. in_box pf p \<and> cell_at pf p = CHR ''S''" ..
    with hs have "has_marker g CHR ''S''" by blast
    with assms(2) b have "goal pf = None" by blast
    from missing_goal_explores [OF wf s this] start_reachable [of s pf]
    show ?thesis by simp
  qed
  from i a b c show ?thesis by blast
qed

theorem missing_marker_behaviour_witness:
  "rectangular [''S0''] \<and> \<not> has_marker [''S0''] CHR ''G'' \<and>
   init [''S0''] = Inr \<lparr>grid = [''S0''], rows = 1, cols = 2, start = Some (0, 0), goal = None\<rparr> \<and>
   find_position \<lparr>grid = [''S0''], rows = 1, cols = 2, start = Some (0, 0), goal = None\<rparr>
     CHR ''G'' = Inr None \<and>
   find_shortest_path \<lparr>grid = [''S0''], rows = 1, cols = 2, start = Some (0, 0), goal = None\<rparr> =
     Inr (None,
          Some ` reachable
            \<lparr>grid = [''S0''], rows = 1, cols = 2, start = Some (0, 0), goal = None\<rparr> (0, 0)) \<and>
   (0, 0) \<in> reachable
     \<lparr>grid = [''S0''], rows = 1, cols = 2, start = Some (0, 0), goal = None\<rparr> (0, 0)"
proof -
  let ?pf = "\<lparr>grid = [''S0''], rows = 1, cols = 2, start = Some (0, 0), goal = None\<rparr>"
  have h1: "rectangular [''S0'']" by code_simp
  have h2: "\<not> has_marker [''S0''] CHR ''G''" by code_simp
  have i: "init [''S0''] = Inr ?pf" by code_simp
  from h2 have h3: "\<not> has_marker [''S0''] CHR ''S'' \<or> \<not> has_marker [''S0''] CHR ''G''"
    by blast
  from missing_marker_behaviour [OF h1 h3] i h2
  have "find_position ?pf CHR ''G'' = Inr None"
    and "find_shortest_path ?pf = Inr (None, Some ` reachable ?pf (0, 0))"
    and "(0, 0) \<in> reachable ?pf (0, 0)"
    by auto
  with h1 h2 i show ?thesis by blast
qed

text \<open>
  C9. Neither \<^verbatim>\<open>find_shortest_path\<close> nor \<^verbatim>\<open>visualize_path\<close> changes an object that existed
  before the call: \<^verbatim>\<open>find_shortest_path\<close> returns the store as it was, and after
  \<^verbatim>\<open>visualize_path\<close>, whether it prints or raises, every object of the earlier store is as
  before, among them the instance with its attributes, the grid and its rows, and the path and
  the explored set that were passed; the address still stands for the same pathfinder. The
  marks go to rows that the call itself has created.
\<close>

theorem calls_leave_state_unchanged:
  assumes "load h self = Some pf"
  shows "find_shortest_path_on self h = (find_shortest_path pf, h) \<and>
         take (length h) (snd (visualize_path self path explored h)) = h \<and>
         load (snd (visualize_path self path explored h)) self = Some pf \<and>
         (\<forall>a. a < length h \<longrightarrow>
            lookup (snd (visualize_path self path explored h)) a = lookup h a)"
proof -
  note frame = visualize_path_frame [of h self path explored]
  from assms have "find_shortest_path_on self h = (find_shortest_path pf, h)"
    by (simp add: find_shortest_path_on_def)
  moreover from load_prefix [OF frame assms]
  have "load (snd (visualize_path self path explored h)) self = Some pf" .
  moreover have "lookup (snd (visualize_path self path explored h)) a = lookup h a"
    if "a < length h" for a
    using lookup_prefix [OF frame that] .
  ultimately show ?thesis using frame by blast
qed

theorem calls_leave_state_unchanged_witness:
  "new_pathfinder [''S0'', ''0G''] [] =
     (Inr 3, [Chars ''S0'', Chars ''0G'', Refs [0, 1],
              Instance 2 2 2 (Some (0, 0)) (Some (1, 1))]) \<and>
   load [Chars ''S0'', Chars ''0G'', Refs [0, 1], Instance 2 2 2 (Some (0, 0)) (Some (1, 1)),
         PosList [Some (0, 0), Some (0, 1), Some (1, 1)],
         PosSet [Some (1, 1), Some (1, 0), Some (0, 0), Some (0, 1)]] 3 =
     Some \<lparr>grid = [''S0'', ''0G''], rows = 2, cols = 2,
            start = Some (0, 0), goal = Some (1, 1)\<rparr> \<and>
   find_shortest_path_on 3
        [Chars ''S0'', Chars ''0G'', Refs [0, 1], Instance 2 2 2 (Some (0, 0)) (Some (1, 1)),
         PosList [Some (0, 0), Some (0, 1), Some (1, 1)],
         PosSet [Some (1, 1), Some (1, 0), Some (0, 0), Some (0, 1)]] =
     (Inr (Some [Some (0, 0), Some (0, 1), Some (1, 1)],
           {Some (0, 0), Some (0, 1), Some (1, 0), Some (1, 1)}),
      [Chars ''S0'', Chars ''0G'', Refs [0, 1], Instance 2 2 2 (Some (0, 0)) (Some (1, 1)),
       PosList [Some (0, 0), Some (0, 1), Some (1, 1)],
       PosSet [Some (1, 1), Some (1, 0), Some (0, 0), Some (0, 1)]]) \<and>
   visualize_path 3 (Some 4) (Some 5)
        [Chars ''S0'', Chars ''0G'', Refs [0, 1], Instance 2 2 2 (Some (0, 0)) (Some (1, 1)),
         PosList [Some (0, 0), Some (0, 1), Some (1, 1)],
         PosSet [Some (1, 1), Some (1, 0), Some (0, 0), Some (0, 1)]] =
     (Inr [''S*'', ''.G''],
      [Chars ''S0'', Chars ''0G'', Refs [0, 1], Instance 2 2 2 (Some (0, 0)) (Some (1, 1)),
       PosList [Some (0, 0), Some (0, 1), Some (1, 1)],
       PosSet [Some (1, 1), Some (1, 0), Some (0, 0), Some (0, 1)],
       Chars ''S*'', Chars ''.G'']) \<and>
   load [Chars ''S0'', Chars ''0G'', Refs [0, 1], Instance 2 2 2 (Some (0, 0)) (Some (1, 1)),
         PosList [Some (0, 0), Some (0, 1), Some (1, 1)],
         PosSet [Some (1, 1), Some (1, 0), Some (0, 0), Some (0, 1)],
         Chars ''S*'', Chars ''.G''] 3 =
     Some \<lparr>grid = [''S0'', ''0G''], rows = 2, cols = 2,
            start = Some (0, 0), goal = Some (1, 1)\<rparr> \<and>
   lookup [Chars ''S0'', Chars ''0G'', Refs [0, 1], Instance 2 2 2 (Some (0, 0)) (Some (1, 1)),
         PosList [Some (0, 0), Some (0, 1), Some (1, 1)],
         PosSet [Some (1, 1), Some (1, 0), Some (0, 0), Some (0, 1)],
         Chars ''S*'', Chars ''.G''] 4 =
     Some (PosList [Some (0, 0), Some (0, 1), Some (1, 1)]) \<and>
   lookup [Chars ''S0'', Chars ''0G'', Refs [0, 1], Instance 2 2 2 (Some (0, 0)) (Some (1, 1)),
         PosList [Some (0, 0), Some (0, 1), Some (1, 1)],
         PosSet [Some (1, 1), Some (1, 0), Some (0, 0), Some (0, 1)],
         Chars ''S*'', Chars ''.G''] 5 =
     Some (PosSet [Some (1, 1), Some (1, 0), Some (0, 0), Some (0, 1)])"
proof -
  let ?pf = "\<lparr>grid = [''S0'', ''0G''], rows = 2, cols = 2,
              start = Some (0, 0), goal = Some (1, 1)\<rparr>"
  let ?h = "[Chars ''S0'', Chars ''0G'', Refs [0, 1], Instance 2 2 2 (Some (0, 0)) (Some (1, 1)),
             PosList [Some (0, 0), Some (0, 1), Some (1, 1)],
             PosSet [Some (1, 1), Some (1, 0), Some (0, 0), Some (0, 1)]]"
  let ?h' = "?h @ [Chars ''S*'', Chars ''.G'']"
  have n: "new_pathfinder [''S0'', ''0G''] [] =
     (Inr 3, [Chars ''S0'', Chars ''0G'', Refs [0, 1],
              Instance 2 2 2 (Some (0, 0)) (Some (1, 1))])"
    by code_simp
  have l: "load ?h 3 = Some ?pf" by code_simp
  have f: "find_shortest_path ?pf =
     Inr (Some [Some (0, 0), Some (0, 1), Some (1, 1)],
          {Some (0, 0), Some (0, 1), Some (1, 0), Some (1, 1)})"
    by code_simp
  have v: "visualize_path 3 (Some 4) (Some 5) ?h = (Inr [''S*'', ''.G''], ?h')"
    by code_simp
  have p: "lookup ?h 4 = Some (PosList [Some (0, 0), Some (0, 1), Some (1, 1)])"
    by code_simp
  have e: "lookup ?h 5 = Some (PosSet [Some (1, 1), Some (1, 0), Some (0, 0), Some (0, 1)])"
    by code_simp
  note t = calls_leave_state_unchanged [OF l, of "Some 4" "Some 5"]
  from t f have c1: "find_shortest_path_on 3 ?h =
     (Inr (Some [Some (0, 0), Some (0, 1), Some (1, 1)],
           {Some (0, 0), Some (0, 1), Some (1, 0), Some (1, 1)}), ?h)"
    by (simp only:)
  from t have c2: "load (snd (visualize_path 3 (Some 4) (Some 5) ?h)) 3 = Some ?pf"
    by (rule conjunct2 [THEN conjunct2, THEN conjunct1])
  from t have c3: "\<forall>a. a < length ?h \<longrightarrow>
      lookup (snd (visualize_path 3 (Some 4) (Some 5) ?h)) a = lookup ?h a"
    by (rule conjunct2 [THEN conjunct2, THEN conjunct2])
  from c3 [rule_format, of 4] p
  have c4: "lookup (snd (visualize_path 3 (Some 4) (Some 5) ?h)) 4 =
      Some (PosList [Some (0, 0), Some (0, 1), Some (1, 1)])"
    by simp
  from c3 [rule_format, of 5] e
  have c5: "lookup (snd (visualize_path 3 (Some 4) (Some 5) ?h)) 5 =
      Some (PosSet [Some (1, 1), Some (1, 0), Some (0, 0), Some (0, 1)])"
    by simp
  from c2 c4 c5 have "load ?h' 3 = Some ?pf"
    and "lookup ?h' 4 = Some (PosList [Some (0, 0), Some (0, 1), Some (1, 1)])"
    and "lookup ?h' 5 = Some (PosSet [Some (1, 1), Some (1, 0), Some (0, 0), Some (0, 1)])"
    unfolding v by simp_all
  with n l c1 v show ?thesis by simp
qed

text \<open>
  C10. \<^verbatim>\<open>find_shortest_path\<close> is fully deterministic. Take two pathfinders built from the
  same grid and any two runs of the search on them, each with a heap of which only the
  contract of \<^verbatim>\<open>heapq\<close> is known: a pop returns a smallest entry in the order on
  (distance, position, path), and nothing is fixed about the arrangement of the entries.
  The two runs end with the identical result, the same sequence of cells and the same
  explored set (or the same exception); it is the one that \<^const>\<open>find_shortest_path\<close>
  computes. The order on entries is linear, so a smallest entry is the only one.
\<close>

theorem runs_are_deterministic:
  assumes "init g = Inr pf1" "init g = Inr pf2"
    and "find_shortest_path_run pf1 r1" "find_shortest_path_run pf2 r2"
  shows "r1 = r2 \<and> r1 = find_shortest_path pf1"
proof -
  from assms(1,2) have "pf1 = pf2" by simp
  with find_shortest_path_run_result [OF assms(3)] find_shortest_path_run_result [OF assms(4)]
  show ?thesis by simp
qed

theorem runs_are_deterministic_witness:
  "init [''S0'', ''0G''] =
     Inr \<lparr>grid = [''S0'', ''0G''], rows = 2, cols = 2,
          start = Some (0, 0), goal = Some (1, 1)\<rparr> \<and>
   find_shortest_path_run
     \<lparr>grid = [''S0'', ''0G''], rows = 2, cols = 2, start = Some (0, 0), goal = Some (1, 1)\<rparr>
     (Inr (Some [Some (0, 0), Some (0, 1), Some (1, 1)],
           {Some (0, 0), Some (0, 1), Some (1, 0), Some (1, 1)})) \<and>
   find_shortest_path
     \<lparr>grid = [''S0'', ''0G''], rows = 2, cols = 2, start = Some (0, 0), goal = Some (1, 1)\<rparr> =
     Inr (Some [Some (0, 0), Some (0, 1), Some (1, 1)],
          {Some (0, 0), Some (0, 1), Some (1, 0), Some (1, 1)})"
proof -
  let ?pf = "\<lparr>grid = [''S0'', ''0G''], rows = 2, cols = 2,
              start = Some (0, 0), goal = Some (1, 1)\<rparr>"
  have i: "init [''S0'', ''0G''] = Inr ?pf" by code_simp
  note run1 = front_heap_run
  note run2 = find_shortest_path_run_exists [of ?pf]
  from runs_are_deterministic [OF i i run1 run2]
  have "find_shortest_path ?pf =
      Inr (Some [Some (0, 0), Some (0, 1), Some (1, 1)],
           {Some (0, 0), Some (0, 1), Some (1, 0), Some (1, 1)})"
    by simp
  with i run1 show ?thesis by blast
qed

end
